theory Spec2Isabelle
  imports Complex_Main "HOL-Library.AList"
begin

section \<open>Strings\<close>

text \<open>
  A JavaScript string is modelled as a \<^typ>\<open>string\<close>: a list of characters with code
  points U+0000 to U+00FF (Latin-1), one character per UTF-16 code unit. On this range
  \<^verbatim>\<open>toLowerCase\<close> works character by character: it moves A-Z and the accented capitals
  U+00C0 to U+00DE (the multiplication sign U+00D7 apart) 32 code points up and keeps every
  other character. \<^verbatim>\<open>trim\<close> removes the white space and line terminators of that range
  (TAB, LF, VT, FF, CR, SPACE, NBSP) from both ends.
\<close>

definition toLowerCase_char :: "char \<Rightarrow> char" where
  "toLowerCase_char c =
     (let n = (of_char c :: nat)
      in if (65 \<le> n \<and> n \<le> 90) \<or> (192 \<le> n \<and> n \<le> 222 \<and> n \<noteq> 215)
         then char_of (n + 32) else c)"

definition toLowerCase :: "string \<Rightarrow> string" where
  "toLowerCase text = map toLowerCase_char text"

definition is_white_space :: "char \<Rightarrow> bool" where
  "is_white_space c = ((of_char c :: nat) \<in> {9, 10, 11, 12, 13, 32, 160})"

definition trim :: "string \<Rightarrow> string" where
  "trim s = rev (dropWhile is_white_space (rev (dropWhile is_white_space s)))"

text \<open>
  \<^verbatim>\<open>xs.slice(0, limit)\<close>: a negative \<open>limit\<close> counts from the end of the array.
\<close>

definition slice0 :: "'a list \<Rightarrow> int \<Rightarrow> 'a list" where
  "slice0 xs limit =
     (if limit < 0 then take (nat (int (length xs) + limit)) xs else take (nat limit) xs)"

text \<open>
  A parameter with the default value 10: the default applies when the argument is left out.
\<close>

definition default_limit :: "int option \<Rightarrow> int" where
  "default_limit limit = (case limit of None \<Rightarrow> 10 | Some l \<Rightarrow> l)"

section \<open>Arrays and sets\<close>

text \<open>
  \<^verbatim>\<open>Array.prototype.sort\<close> with a comparator \<open>cmp\<close>: \<open>a\<close> goes before \<open>b\<close> when
  \<open>cmp a b < 0\<close>, and elements that compare equal keep their order (the sort is stable).
  Every comparator of this program orders by one or two numeric keys, so the sorted array is
  determined by these two rules; the model computes it by stable insertion.
\<close>

fun sort_insert :: "('a \<Rightarrow> 'a \<Rightarrow> 'b::linordered_idom) \<Rightarrow> 'a \<Rightarrow> 'a list \<Rightarrow> 'a list" where
  "sort_insert cmp x [] = [x]"
| "sort_insert cmp x (y # ys) =
     (if cmp x y \<le> 0 then x # y # ys else y # sort_insert cmp x ys)"

definition sort_by :: "('a \<Rightarrow> 'a \<Rightarrow> 'b::linordered_idom) \<Rightarrow> 'a list \<Rightarrow> 'a list" where
  "sort_by cmp xs = foldr (sort_insert cmp) xs []"

text \<open>
  A JavaScript \<^verbatim>\<open>Set\<close> of strings keeps its elements in insertion order, each once: a list
  without duplicates, with \<^verbatim>\<open>add\<close> appending an element that is not there yet.
\<close>

definition set_add :: "'a list \<Rightarrow> 'a \<Rightarrow> 'a list" where
  "set_add s x = (if x \<in> set s then s else s @ [x])"

definition new_Set :: "'a list \<Rightarrow> 'a list" where
  "new_Set xs = fold (\<lambda>x s. set_add s x) xs []"

section \<open>enhanced-trie.js\<close>

subsection \<open>TrieNode\<close>

text \<open>
  The \<^verbatim>\<open>children\<close> object is an association list in the order in which \<^verbatim>\<open>for ... in\<close>
  enumerates its keys: the keys that are array indices (the digits) first, in ascending
  order, then the other keys in the order of their creation. Counters are natural numbers
  (the numbers of JavaScript count exactly up to \<open>2 ^ 53\<close>); the time stamp
  \<^verbatim>\<open>Date.now()\<close> is an argument of the operations that read the clock.
\<close>

datatype TrieNode = TrieNode
  (children: "(char \<times> TrieNode) list")
  (isEndOfWord: bool)
  (fullSentence: string)
  (frequency: nat)
  (lastUsed: nat)

definition new_TrieNode :: TrieNode where
  "new_TrieNode = TrieNode [] False [] 0 0"

record EnhancedTrie =
  root :: TrieNode
  totalInsertions :: nat

definition new_EnhancedTrie :: EnhancedTrie where
  "new_EnhancedTrie = \<lparr>root = new_TrieNode, totalInsertions = 0\<rparr>"

definition is_index_key :: "char \<Rightarrow> bool" where
  "is_index_key c = (48 \<le> (of_char c :: nat) \<and> (of_char c :: nat) \<le> 57)"

text \<open>\<^verbatim>\<open>node.children[char] = child\<close> for a key that the object does not have yet.\<close>

fun add_child :: "char \<Rightarrow> TrieNode \<Rightarrow> (char \<times> TrieNode) list \<Rightarrow> (char \<times> TrieNode) list" where
  "add_child c n [] = [(c, n)]"
| "add_child c n ((k, v) # kvs) =
     (if is_index_key c \<and> (\<not> is_index_key k \<or> (of_char c :: nat) < of_char k)
      then (c, n) # (k, v) # kvs
      else (k, v) # add_child c n kvs)"

text \<open>
  The child under an existing key is changed in place: its position among the keys stays.
\<close>

fun set_child :: "char \<Rightarrow> TrieNode \<Rightarrow> (char \<times> TrieNode) list \<Rightarrow> (char \<times> TrieNode) list" where
  "set_child c n [] = []"
| "set_child c n ((k, v) # kvs) =
     (if k = c then (k, n) # kvs else (k, v) # set_child c n kvs)"

subsection \<open>EnhancedTrie\<close>

definition processSentence :: "string \<Rightarrow> string" where
  "processSentence text = toLowerCase text"

text \<open>
  The loop of \<^verbatim>\<open>insert\<close> walks down from the root and creates the missing nodes; the
  statements after the loop change the node it stops at. Every node has one parent, so the
  change made through the reference \<^verbatim>\<open>node\<close> is the change of the subtree at that path.
\<close>

fun insert_node :: "nat \<Rightarrow> string \<Rightarrow> string \<Rightarrow> TrieNode \<Rightarrow> TrieNode" where
  "insert_node now sentence [] node =
     TrieNode (children node) True (trim sentence) (frequency node + 1) now"
| "insert_node now sentence (c # cs) node =
     (case map_of (children node) c of
        None \<Rightarrow>
          TrieNode (add_child c (insert_node now sentence cs new_TrieNode) (children node))
            (isEndOfWord node) (fullSentence node) (frequency node) (lastUsed node)
      | Some child \<Rightarrow>
          TrieNode (set_child c (insert_node now sentence cs child) (children node))
            (isEndOfWord node) (fullSentence node) (frequency node) (lastUsed node))"

definition EnhancedTrie_insert :: "nat \<Rightarrow> string \<Rightarrow> EnhancedTrie \<Rightarrow> EnhancedTrie" where
  "EnhancedTrie_insert now sentence t =
     (if sentence = [] then t
      else \<lparr>root = insert_node now sentence (processSentence sentence) (root t),
            totalInsertions = totalInsertions t + 1\<rparr>)"

text \<open>The loop of \<^verbatim>\<open>autocomplete\<close> and \<^verbatim>\<open>recordSelection\<close>: the node at a path, if any.\<close>

fun walk :: "TrieNode \<Rightarrow> string \<Rightarrow> TrieNode option" where
  "walk node [] = Some node"
| "walk node (c # cs) =
     (case map_of (children node) c of None \<Rightarrow> None | Some child \<Rightarrow> walk child cs)"

text \<open>
  \<^verbatim>\<open>findAllWords\<close> pushes the entry of the node, if it ends a sentence, and then the
  entries below each child, in the order of the keys, on the array \<^verbatim>\<open>results\<close>.
\<close>

record suggestion =
  s_text :: string
  s_frequency :: nat
  s_lastUsed :: nat

fun findAllWords :: "TrieNode \<Rightarrow> suggestion list \<Rightarrow> suggestion list" where
  "findAllWords (TrieNode kids isEnd sentence freq used) results =
     fold (\<lambda>kv res. findAllWords (snd kv) res) kids
       (if isEnd
        then results @ [\<lparr>s_text = sentence, s_frequency = freq, s_lastUsed = used\<rparr>]
        else results)"

definition rank_cmp :: "suggestion \<Rightarrow> suggestion \<Rightarrow> int" where
  "rank_cmp a b =
     (let freqDiff = int (s_frequency b) - int (s_frequency a)
      in if freqDiff \<noteq> 0 then freqDiff else int (s_lastUsed b) - int (s_lastUsed a))"

definition rankSuggestions :: "suggestion list \<Rightarrow> int \<Rightarrow> string list" where
  "rankSuggestions suggestions limit = map s_text (slice0 (sort_by rank_cmp suggestions) limit)"

definition EnhancedTrie_autocomplete :: "EnhancedTrie \<Rightarrow> string \<Rightarrow> int option \<Rightarrow> string list" where
  "EnhancedTrie_autocomplete t prefix limit =
     (if prefix = [] then []
      else case walk (root t) (processSentence prefix) of
             None \<Rightarrow> []
           | Some node \<Rightarrow> rankSuggestions (findAllWords node []) (default_limit limit))"

fun select_node :: "nat \<Rightarrow> string \<Rightarrow> string \<Rightarrow> TrieNode \<Rightarrow> TrieNode" where
  "select_node now sentence [] node =
     (if isEndOfWord node \<and> fullSentence node = sentence
      then TrieNode (children node) (isEndOfWord node) (fullSentence node)
             (frequency node + 1) now
      else node)"
| "select_node now sentence (c # cs) node =
     (case map_of (children node) c of
        None \<Rightarrow> node
      | Some child \<Rightarrow>
          TrieNode (set_child c (select_node now sentence cs child) (children node))
            (isEndOfWord node) (fullSentence node) (frequency node) (lastUsed node))"

definition EnhancedTrie_recordSelection :: "nat \<Rightarrow> string \<Rightarrow> EnhancedTrie \<Rightarrow> EnhancedTrie" where
  "EnhancedTrie_recordSelection now sentence t =
     (if sentence = [] then t
      else t\<lparr>root := select_node now sentence (processSentence sentence) (root t)\<rparr>)"

fun countNodes :: "TrieNode \<Rightarrow> nat \<Rightarrow> nat" where
  "countNodes (TrieNode kids isEnd sentence freq used) count =
     fold (\<lambda>kv cnt. countNodes (snd kv) cnt) kids (if isEnd then count + 1 else count)"

definition countUniqueEntries :: "EnhancedTrie \<Rightarrow> nat" where
  "countUniqueEntries t = countNodes (root t) 0"

fun countTotalNodesHelper :: "TrieNode \<Rightarrow> nat \<Rightarrow> nat" where
  "countTotalNodesHelper (TrieNode kids isEnd sentence freq used) count =
     fold (\<lambda>kv cnt. countTotalNodesHelper (snd kv) cnt) kids (count + 1)"

definition countTotalNodes :: "EnhancedTrie \<Rightarrow> nat" where
  "countTotalNodes t = countTotalNodesHelper (root t) 0"

section \<open>fuzzy-matcher.js\<close>

subsection \<open>Variations\<close>

definition chars :: string where
  "chars = ''abcdefghijklmnopqrstuvwxyz0123456789 ''"

text \<open>
  \<^verbatim>\<open>addEdits(word, variations)\<close> adds to the set, in this order, the deletions, the
  transpositions, the replacements and the insertions; \<^verbatim>\<open>word.slice(0, i)\<close> is
  \<^term>\<open>take i word\<close> and \<^verbatim>\<open>word.slice(i)\<close> is \<^term>\<open>drop i word\<close>. The bound
  \<^verbatim>\<open>word.length - 1\<close> of the second loop is \<open>-1\<close> for the empty word, where the loop
  does not run, as with the truncating subtraction here.
\<close>

definition addEdits :: "string \<Rightarrow> string list \<Rightarrow> string list" where
  "addEdits word variations =
     (let v1 = fold (\<lambda>i v. set_add v (take i word @ drop (i + 1) word))
                 [0..<length word] variations;
          v2 = fold (\<lambda>i v. set_add v
                       (take i word @ [word ! (i + 1)] @ [word ! i] @ drop (i + 2) word))
                 [0..<length word - 1] v1;
          v3 = fold (\<lambda>i v. fold (\<lambda>char v. set_add v (take i word @ [char] @ drop (i + 1) word))
                       chars v)
                 [0..<length word] v2;
          v4 = fold (\<lambda>i v. fold (\<lambda>char v. set_add v (take i word @ [char] @ drop i word))
                       chars v)
                 [0..<length word + 1] v3
      in v4)"

text \<open>
  \<^verbatim>\<open>getVariations\<close>: each round takes a copy of the set (\<^verbatim>\<open>currentWords\<close>) and adds the
  edits of every word of the copy to the set.
\<close>

definition getVariations :: "int \<Rightarrow> string \<Rightarrow> string list" where
  "getVariations maxDistance word =
     (let variations = new_Set [word]
      in if word = [] \<or> maxDistance \<le> 0 then variations
         else fold (\<lambda>i variations.
                     let currentWords = variations
                     in fold (\<lambda>currentWord v. addEdits currentWord v) currentWords variations)
                [1..<nat maxDistance + 1] variations)"

subsection \<open>Levenshtein distance\<close>

text \<open>
  The matrix \<^verbatim>\<open>dp\<close> is a list of rows; \<^verbatim>\<open>dp[i][j] = v\<close> is the update of row \<open>i\<close> at
  column \<open>j\<close>. The three loops run over \<open>0..m\<close>, \<open>0..n\<close> and \<open>1..m \<times> 1..n\<close>.
\<close>

definition dp_set :: "nat list list \<Rightarrow> nat \<Rightarrow> nat \<Rightarrow> nat \<Rightarrow> nat list list" where
  "dp_set dp i j v = dp[i := (dp ! i)[j := v]]"

definition dp_init :: "nat \<Rightarrow> nat \<Rightarrow> nat list list" where
  "dp_init m n =
     (let dp0 = replicate (m + 1) (replicate (n + 1) 0);
          dp1 = fold (\<lambda>i dp. dp_set dp i 0 i) [0..<m + 1] dp0;
          dp2 = fold (\<lambda>j dp. dp_set dp 0 j j) [0..<n + 1] dp1
      in dp2)"

definition dp_step :: "string \<Rightarrow> string \<Rightarrow> nat \<Rightarrow> nat \<Rightarrow> nat list list \<Rightarrow> nat list list" where
  "dp_step s1 s2 i j dp =
     (let cost = (if s1 ! (i - 1) = s2 ! (j - 1) then 0 else 1)
      in dp_set dp i j
           (min (min (dp ! (i - 1) ! j + 1) (dp ! i ! (j - 1) + 1))
                (dp ! (i - 1) ! (j - 1) + cost)))"

definition levenshteinDistance :: "string \<Rightarrow> string \<Rightarrow> nat" where
  "levenshteinDistance s1 s2 =
     (if s1 = s2 then 0
      else if s1 = [] then length s2
      else if s2 = [] then length s1
      else let m = length s1; n = length s2;
               dp = fold (\<lambda>i dp. fold (\<lambda>j dp. dp_step s1 s2 i j dp) [1..<n + 1] dp)
                      [1..<m + 1] (dp_init m n)
           in dp ! m ! n)"

text \<open>
  The distance the claims compare with, by the textbook recursion on the two strings: the
  least number of insertions, deletions and substitutions of one character that turn one
  string into the other (lemma \<open>lev_least_edits\<close> below).
\<close>

fun lev :: "'a list \<Rightarrow> 'a list \<Rightarrow> nat" where
  "lev [] ys = length ys"
| "lev xs [] = length xs"
| "lev (x # xs) (y # ys) =
     min (min (lev xs (y # ys) + 1) (lev (x # xs) ys + 1))
         (lev xs ys + (if x = y then 0 else 1))"

subsection \<open>Ranking\<close>

text \<open>
  The scores are quotients of two lengths; they are rational numbers here, which compare as
  the floating-point quotients do for strings of any length that fits in memory.
\<close>

definition calculateSimilarity :: "string \<Rightarrow> string \<Rightarrow> rat" where
  "calculateSimilarity original match =
     (let s1 = toLowerCase original; s2 = toLowerCase match;
          distance = levenshteinDistance s1 s2;
          maxLen = max (length s1) (length s2)
      in if maxLen = 0 then 0 else of_nat distance / of_nat maxLen)"

definition rankMatches :: "string \<Rightarrow> string list \<Rightarrow> string list" where
  "rankMatches query candidates =
     (if query = [] \<or> candidates = [] then []
      else let withScores = map (\<lambda>candidate. (candidate, calculateSimilarity query candidate))
                              candidates
           in map fst (sort_by (\<lambda>a b. snd a - snd b) withScores))"

record bestMatch =
  bm_variation :: string
  bm_distance :: nat

definition findBestMatchingVariation :: "int \<Rightarrow> string \<Rightarrow> string \<Rightarrow> bestMatch" where
  "findBestMatchingVariation maxDistance query txt =
     (let variations = getVariations maxDistance query;
          bestMatch0 = \<lparr>bm_variation = query,
                        bm_distance = levenshteinDistance (toLowerCase query) (toLowerCase txt)\<rparr>
      in fold (\<lambda>variation bestMatch.
                 if variation = query then bestMatch
                 else let distance = levenshteinDistance (toLowerCase variation) (toLowerCase txt)
                      in if distance < bm_distance bestMatch
                         then \<lparr>bm_variation = variation, bm_distance = distance\<rparr>
                         else bestMatch)
           variations bestMatch0)"

text \<open>
  \<^verbatim>\<open>rankMatchesWithInfo\<close> reads \<^verbatim>\<open>candidate.text || candidate\<close>: for a candidate whose
  text is the empty string this is the candidate object itself, and the call
  \<^verbatim>\<open>text.toLowerCase()\<close> in \<^verbatim>\<open>findBestMatchingVariation\<close> then throws a TypeError.
  The candidates are objects with a text, a frequency and the variation that found them;
  the ranked candidates add the score and the match information.
\<close>

datatype js_error = TypeError

record candidate =
  c_text :: string
  c_frequency :: nat
  c_variation :: string

record ranked = candidate +
  r_score :: rat
  r_distance :: nat
  r_matchedVariation :: string

definition withScore :: "int \<Rightarrow> string \<Rightarrow> candidate \<Rightarrow> ranked" where
  "withScore maxDistance query cand =
     (let txt = c_text cand;
          matchInfo = findBestMatchingVariation maxDistance query txt;
          distance = bm_distance matchInfo;
          score = of_nat distance / of_nat (max (length query) (length txt))
      in \<lparr>c_text = c_text cand, c_frequency = c_frequency cand, c_variation = c_variation cand,
          r_score = score, r_distance = distance, r_matchedVariation = bm_variation matchInfo\<rparr>)"

definition rankMatchesWithInfo :: "int \<Rightarrow> string \<Rightarrow> candidate list \<Rightarrow> js_error + ranked list" where
  "rankMatchesWithInfo maxDistance query candidates =
     (if query = [] \<or> candidates = [] then Inr []
      else if \<exists>cand \<in> set candidates. c_text cand = [] then Inl TypeError
      else Inr (sort_by (\<lambda>a b. r_score a - r_score b)
                  (map (withScore maxDistance query) candidates)))"

section \<open>script.js\<close>

text \<open>
  \<^verbatim>\<open>FuzzyTrieAutocomplete\<close> holds a \<^verbatim>\<open>FuzzyMatcher\<close>, whose only field is
  \<^verbatim>\<open>maxDistance\<close> (2 when the constructor gets no argument), and an \<^verbatim>\<open>EnhancedTrie\<close>.
\<close>

record FuzzyTrieAutocomplete =
  maxDistance :: int
  trie :: EnhancedTrie

definition new_FuzzyTrieAutocomplete :: "int option \<Rightarrow> FuzzyTrieAutocomplete" where
  "new_FuzzyTrieAutocomplete d =
     \<lparr>maxDistance = (case d of None \<Rightarrow> 2 | Some d' \<Rightarrow> d'), trie = new_EnhancedTrie\<rparr>"

definition FuzzyTrieAutocomplete_insert ::
    "nat \<Rightarrow> string \<Rightarrow> FuzzyTrieAutocomplete \<Rightarrow> bool \<times> FuzzyTrieAutocomplete" where
  "FuzzyTrieAutocomplete_insert now sentence a =
     (if sentence \<noteq> [] \<and> trim sentence \<noteq> []
      then (True, a\<lparr>trie := EnhancedTrie_insert now sentence (trie a)\<rparr>)
      else (False, a))"

definition FuzzyTrieAutocomplete_recordSelection ::
    "nat \<Rightarrow> string \<Rightarrow> FuzzyTrieAutocomplete \<Rightarrow> FuzzyTrieAutocomplete" where
  "FuzzyTrieAutocomplete_recordSelection now sentence a =
     a\<lparr>trie := EnhancedTrie_recordSelection now sentence (trie a)\<rparr>"

text \<open>
  \<^verbatim>\<open>autocomplete\<close> as in lines 22 to 40 of script.js: the suggestions of all variations,
  without duplicates, ranked by similarity to the query.
\<close>

definition FuzzyTrieAutocomplete_autocomplete ::
    "FuzzyTrieAutocomplete \<Rightarrow> string \<Rightarrow> int option \<Rightarrow> string list" where
  "FuzzyTrieAutocomplete_autocomplete a query limit =
     (if query = [] then []
      else let variations = getVariations (maxDistance a) query;
               allSuggestions = concat (map (\<lambda>variation.
                   EnhancedTrie_autocomplete (trie a) variation (Some (default_limit limit)))
                 variations);
               uniqueSuggestions = new_Set allSuggestions
           in slice0 (rankMatches query uniqueSuggestions) (default_limit limit))"

text \<open>
  \<^verbatim>\<open>autocomplete\<close> as in lines 423 to 466 of script.js, which ranks by frequency and
  distance. For every suggestion it calls \<^verbatim>\<open>this.trie.getFrequency(suggestion)\<close> (line
  436). The class \<^verbatim>\<open>EnhancedTrie\<close> defines no method of that name, and no other file
  does: the property is \<^verbatim>\<open>undefined\<close> and the call throws a TypeError.
\<close>

definition getFrequency :: "EnhancedTrie \<Rightarrow> string \<Rightarrow> js_error + nat" where
  "getFrequency t suggestion = Inl TypeError"

text \<open>
  \<^verbatim>\<open>suggestions.map(...)\<close> of lines 435 to 438, one call of \<^verbatim>\<open>getFrequency\<close> for each
  suggestion, and the loop over the variations of lines 431 to 441, which an exception
  leaves at once.
\<close>

fun suggestionsWithFrequency ::
    "EnhancedTrie \<Rightarrow> string \<Rightarrow> string list \<Rightarrow> js_error + candidate list" where
  "suggestionsWithFrequency t variation [] = Inr []"
| "suggestionsWithFrequency t variation (suggestion # suggestions) =
     (case getFrequency t suggestion of
        Inl e \<Rightarrow> Inl e
      | Inr freq \<Rightarrow>
          (case suggestionsWithFrequency t variation suggestions of
             Inl e \<Rightarrow> Inl e
           | Inr rest \<Rightarrow>
               Inr (\<lparr>c_text = suggestion, c_frequency = freq,
                     c_variation = variation\<rparr> # rest)))"

fun allSuggestions2 ::
    "FuzzyTrieAutocomplete \<Rightarrow> int \<Rightarrow> string list \<Rightarrow> candidate list
       \<Rightarrow> js_error + candidate list" where
  "allSuggestions2 a limit [] allSuggestions = Inr allSuggestions"
| "allSuggestions2 a limit (variation # variations) allSuggestions =
     (case suggestionsWithFrequency (trie a) variation
             (EnhancedTrie_autocomplete (trie a) variation (Some limit)) of
        Inl e \<Rightarrow> Inl e
      | Inr found \<Rightarrow> allSuggestions2 a limit variations (allSuggestions @ found))"

text \<open>
  The map \<^verbatim>\<open>uniqueMap\<close> keeps its keys in insertion order; a key that is set again keeps
  its place.
\<close>

definition uniqueMap_add :: "candidate \<Rightarrow> (string \<times> candidate) list \<Rightarrow> (string \<times> candidate) list" where
  "uniqueMap_add item uniqueMap =
     (case map_of uniqueMap (c_text item) of
        None \<Rightarrow> AList.update (c_text item) item uniqueMap
      | Some old \<Rightarrow>
          if c_frequency old < c_frequency item
          then AList.update (c_text item) item uniqueMap else uniqueMap)"

definition uniqueSuggestions2 :: "candidate list \<Rightarrow> candidate list" where
  "uniqueSuggestions2 allSuggestions = map snd (fold uniqueMap_add allSuggestions [])"

definition final_cmp :: "ranked \<Rightarrow> ranked \<Rightarrow> int" where
  "final_cmp a b =
     (if c_frequency b \<noteq> c_frequency a then int (c_frequency b) - int (c_frequency a)
      else int (r_distance a) - int (r_distance b))"

definition FuzzyTrieAutocomplete_autocomplete2 ::
    "FuzzyTrieAutocomplete \<Rightarrow> string \<Rightarrow> int option \<Rightarrow> js_error + ranked list" where
  "FuzzyTrieAutocomplete_autocomplete2 a query limit =
     (if query = [] then Inr []
      else case allSuggestions2 a (default_limit limit)
                  (getVariations (maxDistance a) query) [] of
             Inl e \<Rightarrow> Inl e
           | Inr allSuggestions \<Rightarrow>
               (case rankMatchesWithInfo (maxDistance a) query
                       (uniqueSuggestions2 allSuggestions) of
                  Inl e \<Rightarrow> Inl e
                | Inr rankedSuggestions \<Rightarrow>
                    Inr (slice0 (sort_by final_cmp rankedSuggestions) (default_limit limit))))"

section \<open>The read operations as state transformers\<close>

text \<open>
  The same three methods with the state written out: each takes the object it is called on
  and returns it with its result, handing it through every call it makes, in the order of
  the source.
\<close>

fun findAllWords_st ::
    "TrieNode \<Rightarrow> suggestion list \<Rightarrow> EnhancedTrie \<Rightarrow> suggestion list \<times> EnhancedTrie" where
  "findAllWords_st (TrieNode kids isEnd sentence freq used) results t =
     fold (\<lambda>kv rt. findAllWords_st (snd kv) (fst rt) (snd rt)) kids
       (if isEnd
        then results @ [\<lparr>s_text = sentence, s_frequency = freq, s_lastUsed = used\<rparr>]
        else results, t)"

definition EnhancedTrie_autocomplete_st ::
    "string \<Rightarrow> int option \<Rightarrow> EnhancedTrie \<Rightarrow> string list \<times> EnhancedTrie" where
  "EnhancedTrie_autocomplete_st prefix limit t =
     (if prefix = [] then ([], t)
      else case walk (root t) (processSentence prefix) of
             None \<Rightarrow> ([], t)
           | Some node \<Rightarrow>
               (case findAllWords_st node [] t of
                  (suggestions, t') \<Rightarrow> (rankSuggestions suggestions (default_limit limit), t')))"

definition FuzzyTrieAutocomplete_autocomplete_st ::
    "string \<Rightarrow> int option \<Rightarrow> FuzzyTrieAutocomplete \<Rightarrow> string list \<times> FuzzyTrieAutocomplete" where
  "FuzzyTrieAutocomplete_autocomplete_st query limit a =
     (if query = [] then ([], a)
      else let variations = getVariations (maxDistance a) query
           in case fold (\<lambda>variation st.
                     case EnhancedTrie_autocomplete_st variation (Some (default_limit limit))
                            (trie (snd st)) of
                       (suggestions, t') \<Rightarrow> (fst st @ suggestions, (snd st)\<lparr>trie := t'\<rparr>))
                   variations ([], a) of
                (allSuggestions, a') \<Rightarrow>
                  (slice0 (rankMatches query (new_Set allSuggestions)) (default_limit limit), a'))"

section \<open>Notions of the proofs\<close>

subsection \<open>Tries\<close>

text \<open>The entries below a node, in the order of \<^const>\<open>findAllWords\<close>.\<close>

fun words_of :: "TrieNode \<Rightarrow> suggestion list" where
  "words_of (TrieNode kids isEnd sentence freq used) =
     (if isEnd then [\<lparr>s_text = sentence, s_frequency = freq, s_lastUsed = used\<rparr>] else [])
     @ concat (map (\<lambda>kv. words_of (snd kv)) kids)"

text \<open>A property of the fields of every node of a subtree.\<close>

fun every_node :: "(bool \<Rightarrow> string \<Rightarrow> nat \<Rightarrow> nat \<Rightarrow> bool) \<Rightarrow> TrieNode \<Rightarrow> bool" where
  "every_node P (TrieNode kids isEnd sentence freq used) =
     (P isEnd sentence freq used \<and> (\<forall>kv \<in> set kids. every_node P (snd kv)))"

text \<open>The trie that holds one path and ends in the node \<open>leaf\<close>.\<close>

fun chain :: "string \<Rightarrow> TrieNode \<Rightarrow> TrieNode" where
  "chain [] leaf = leaf"
| "chain (c # cs) leaf = TrieNode [(c, chain cs leaf)] False [] 0 0"

text \<open>What one node holds itself: the keys of its children and its four fields.\<close>

definition node_fields :: "TrieNode \<Rightarrow> char list \<times> bool \<times> string \<times> nat \<times> nat" where
  "node_fields n = (map fst (children n), isEndOfWord n, fullSentence n, frequency n, lastUsed n)"

text \<open>
  The test of \<^verbatim>\<open>recordSelection\<close>: the path of the key exists, the node it reaches ends a
  sentence, and the sentence stored there is the one given.
\<close>

definition selected :: "TrieNode \<Rightarrow> string \<Rightarrow> string \<Rightarrow> bool" where
  "selected n key sentence =
     (case walk n key of None \<Rightarrow> False | Some m \<Rightarrow> isEndOfWord m \<and> fullSentence m = sentence)"

text \<open>The states of a trie: the empty trie and what the two mutators make of a state.\<close>

inductive reachable :: "EnhancedTrie \<Rightarrow> bool" where
  init: "reachable new_EnhancedTrie"
| ins: "reachable t \<Longrightarrow> reachable (EnhancedTrie_insert now sentence t)"
| sel: "reachable t \<Longrightarrow> reachable (EnhancedTrie_recordSelection now sentence t)"

subsection \<open>Edits\<close>

text \<open>
  One edit of a string: a character of \<open>A\<close> inserted, a character deleted, or a character
  replaced by one of \<open>A\<close>, at any position.
\<close>

inductive edit1 :: "'a set \<Rightarrow> 'a list \<Rightarrow> 'a list \<Rightarrow> bool" for A :: "'a set" where
  ins: "c \<in> A \<Longrightarrow> edit1 A xs (c # xs)"
| del: "edit1 A (c # xs) xs"
| sub: "d \<in> A \<Longrightarrow> edit1 A (c # xs) (d # xs)"
| cong: "edit1 A xs ys \<Longrightarrow> edit1 A (c # xs) (c # ys)"

definition edit_rel :: "'a set \<Rightarrow> ('a list \<times> 'a list) set" where
  "edit_rel A = {(w, w'). edit1 A w w'}"

text \<open>The strings that \<^const>\<open>addEdits\<close> adds for one word.\<close>

definition edits_of :: "string \<Rightarrow> string set" where
  "edits_of w =
     (\<lambda>i. take i w @ drop (i + 1) w) ` {0..<length w} \<union>
     (\<lambda>i. take i w @ [w ! (i + 1)] @ [w ! i] @ drop (i + 2) w) ` {0..<length w - 1} \<union>
     (\<Union>i \<in> {0..<length w}. (\<lambda>c. take i w @ [c] @ drop (i + 1) w) ` set chars) \<union>
     (\<Union>i \<in> {0..<length w + 1}. (\<lambda>c. take i w @ [c] @ drop i w) ` set chars)"

definition edit_at :: "string \<Rightarrow> string \<Rightarrow> bool" where
  "edit_at w w' =
     ((\<exists>i. i < length w \<and> w' = take i w @ drop (i + 1) w) \<or>
      (\<exists>i c. i < length w \<and> c \<in> set chars \<and> w' = take i w @ [c] @ drop (i + 1) w) \<or>
      (\<exists>i c. i \<le> length w \<and> c \<in> set chars \<and> w' = take i w @ [c] @ drop i w))"

text \<open>One round of \<^const>\<open>getVariations\<close>.\<close>

definition variation_round :: "string list \<Rightarrow> string list" where
  "variation_round variations =
     fold (\<lambda>currentWord v. addEdits currentWord v) variations variations"

subsection \<open>The matrix of the distance\<close>

definition dp_dims :: "nat \<Rightarrow> nat \<Rightarrow> nat list list \<Rightarrow> bool" where
  "dp_dims m n dp = (length dp = m + 1 \<and> (\<forall>r \<le> m. length (dp ! r) = n + 1))"

definition dp_init_ok :: "nat \<Rightarrow> nat \<Rightarrow> nat \<Rightarrow> nat \<Rightarrow> nat list list \<Rightarrow> bool" where
  "dp_init_ok m n k1 k2 dp =
     (dp_dims m n dp \<and>
      (\<forall>r \<le> m. \<forall>c \<le> n. dp ! r ! c =
         (if r = 0 \<and> c < k2 then c else if c = 0 \<and> r < k1 then r else 0)))"

text \<open>The distance between the prefixes of length \<open>i\<close> and \<open>j\<close>.\<close>

definition levD :: "'a list \<Rightarrow> 'a list \<Rightarrow> nat \<Rightarrow> nat \<Rightarrow> nat" where
  "levD s1 s2 i j = lev (rev (take i s1)) (rev (take j s2))"

text \<open>
  The invariant of the third loop: row 0, column 0, the rows above \<open>i\<close> and the cells of
  row \<open>i\<close> up to column \<open>j\<close> hold the distances of the prefixes.
\<close>

definition dp_ok :: "string \<Rightarrow> string \<Rightarrow> nat \<Rightarrow> nat \<Rightarrow> nat list list \<Rightarrow> bool" where
  "dp_ok s1 s2 i j dp =
     (dp_dims (length s1) (length s2) dp \<and>
      (\<forall>r \<le> length s1. \<forall>c \<le> length s2.
         (r = 0 \<or> c = 0 \<or> r < i \<or> (r = i \<and> c \<le> j)) \<longrightarrow> dp ! r ! c = levD s1 s2 r c))"

section \<open>Example states\<close>

text \<open>
  A trie with the sentence \<open>acb\<close> inserted twice and \<open>abc\<close> once, the same trie behind a
  matcher of distance 1, and a trie with ten sentences \<open>b0\<close> to \<open>b9\<close>, each inserted twice.
\<close>

definition example_trie :: EnhancedTrie where
  "example_trie =
     EnhancedTrie_insert 3 ''abc''
       (EnhancedTrie_insert 2 ''acb'' (EnhancedTrie_insert 1 ''acb'' new_EnhancedTrie))"

definition example_fta :: FuzzyTrieAutocomplete where
  "example_fta = \<lparr>maxDistance = 1, trie = example_trie\<rparr>"

definition crowded_trie :: EnhancedTrie where
  "crowded_trie =
     fold (\<lambda>sentence t. EnhancedTrie_insert 2 sentence (EnhancedTrie_insert 1 sentence t))
       [''b0'', ''b1'', ''b2'', ''b3'', ''b4'', ''b5'', ''b6'', ''b7'', ''b8'', ''b9'']
       new_EnhancedTrie"

section \<open>Lemmas\<close>

subsection \<open>Arrays, sets and sorting\<close>

lemma set_sort_insert [simp]: "set (sort_insert cmp x xs) = insert x (set xs)"
  by (induction xs) auto

lemma length_sort_insert [simp]: "length (sort_insert cmp x xs) = Suc (length xs)"
  by (induction xs) auto

lemma set_sort_by [simp]: "set (sort_by cmp xs) = set xs"
  by (induction xs) (auto simp: sort_by_def)

lemma length_sort_by [simp]: "length (sort_by cmp xs) = length xs"
  by (induction xs) (auto simp: sort_by_def)

lemma slice0_all: "int (length xs) \<le> limit \<Longrightarrow> slice0 xs limit = xs"
  by (auto simp: slice0_def)

lemma length_slice0: "0 \<le> limit \<Longrightarrow> length (slice0 xs limit) \<le> nat limit"
  by (simp add: slice0_def)

lemma slice0_take: "\<exists>n. slice0 xs l = take n xs"
  by (auto simp: slice0_def)

lemma set_slice0: "set (slice0 xs l) \<subseteq> set xs"
  by (auto simp: slice0_def dest: in_set_takeD)

lemma sorted_wrt_sort_insert:
  assumes "transp R" and "\<And>x y. cmp x y \<le> 0 \<Longrightarrow> R x y" and "\<And>x y. \<not> cmp x y \<le> 0 \<Longrightarrow> R y x"
  shows "sorted_wrt R xs \<Longrightarrow> sorted_wrt R (sort_insert cmp x xs)"
proof (induction xs)
  case Nil
  then show ?case by simp
next
  case (Cons y ys)
  show ?case
  proof (cases "cmp x y \<le> 0")
    case True
    then have "R x y" by (rule assms(2))
    then have "\<forall>z \<in> set ys. R x z" using Cons.prems assms(1) by (auto dest: transpD)
    then show ?thesis using True Cons.prems \<open>R x y\<close> by simp
  next
    case False
    then have "R y x" by (rule assms(3))
    then show ?thesis using False Cons by auto
  qed
qed

lemma sorted_wrt_sort_by:
  assumes "transp R" and "\<And>x y. cmp x y \<le> 0 \<Longrightarrow> R x y" and "\<And>x y. \<not> cmp x y \<le> 0 \<Longrightarrow> R y x"
  shows "sorted_wrt R (sort_by cmp xs)"
proof (induction xs)
  case Nil
  then show ?case by (simp add: sort_by_def)
next
  case (Cons x xs)
  then show ?case using sorted_wrt_sort_insert [OF assms, where xs = "sort_by cmp xs" and x = x]
    by (simp add: sort_by_def)
qed

lemma set_set_add [simp]: "set (set_add s x) = insert x (set s)"
  by (auto simp: set_add_def)

lemma set_fold_set_add: "set (fold (\<lambda>i v. set_add v (f i)) is v) = set v \<union> f ` set is"
  by (induction "is" arbitrary: v) auto

lemma set_fold_fold_set_add:
  "set (fold (\<lambda>i v. fold (\<lambda>c v. set_add v (g i c)) cs v) is v)
   = set v \<union> (\<Union>i \<in> set is. g i ` set cs)"
  by (induction "is" arbitrary: v) (auto simp: set_fold_set_add)

lemma fold_const: "fold (\<lambda>i. g) xs s = (g ^^ length xs) s"
  by (induction xs arbitrary: s) (auto simp: funpow_swap1)

lemma fold_upt_inv:
  assumes "P a s" and "a \<le> b"
    and "\<And>k s. a \<le> k \<Longrightarrow> k < b \<Longrightarrow> P k s \<Longrightarrow> P (Suc k) (f k s)"
  shows "P b (fold f [a..<b] s)"
  using assms(2,3)
proof (induction b)
  case 0
  then show ?case using assms(1) by simp
next
  case (Suc b)
  show ?case
  proof (cases "a = Suc b")
    case True
    then show ?thesis using assms(1) by simp
  next
    case False
    then have ab: "a \<le> b" using Suc.prems(1) by simp
    have "P b (fold f [a..<b] s)"
      using Suc.IH [OF ab] Suc.prems(2) by simp
    then have "P (Suc b) (f b (fold f [a..<b] s))"
      using Suc.prems(2) [of b] ab by simp
    then show ?thesis using ab by simp
  qed
qed

lemma trim_empty_iff: "trim s = [] \<longleftrightarrow> (\<forall>c \<in> set s. is_white_space c)"
proof -
  have "trim s = [] \<longleftrightarrow> (\<forall>c \<in> set (dropWhile is_white_space s). is_white_space c)"
    by (simp add: trim_def dropWhile_eq_Nil_conv)
  also have "\<dots> \<longleftrightarrow> dropWhile is_white_space s = []"
    by (metis hd_dropWhile list.set_sel(1) empty_iff list.set(1))
  also have "\<dots> \<longleftrightarrow> (\<forall>c \<in> set s. is_white_space c)"
    by (simp add: dropWhile_eq_Nil_conv)
  finally show ?thesis .
qed

subsection \<open>Children of a node\<close>

lemma map_of_add_child_new [simp]:
  "map_of kids c = None \<Longrightarrow> map_of (add_child c n kids) c' = (if c' = c then Some n else map_of kids c')"
  by (induction kids) (auto split: if_splits)

lemma map_of_set_child [simp]:
  "map_of (set_child c n kids) c' =
     (if c' = c \<and> map_of kids c \<noteq> None then Some n else map_of kids c')"
  by (induction kids) auto

lemma set_add_child [simp]: "set (add_child c n kids) = insert (c, n) (set kids)"
  by (induction kids) (auto split: if_splits)

lemma map_fst_set_child [simp]: "map fst (set_child c n kids) = map fst kids"
  by (induction kids) auto

lemma set_set_child: "set (set_child c n kids) \<subseteq> insert (c, n) (set kids)"
  by (induction kids) (auto split: if_splits)

lemma set_child_mem: "map_of kids c \<noteq> None \<Longrightarrow> (c, n) \<in> set (set_child c n kids)"
  by (induction kids) auto

lemma set_child_same: "map_of kids c = Some child \<Longrightarrow> set_child c child kids = kids"
  by (induction kids) (auto split: if_splits)

subsection \<open>Traversal\<close>

text \<open>
  The traversal with an accumulator appends the entries of the subtree, and the counter counts them.
\<close>

lemma findAllWords_words_of: "findAllWords node results = results @ words_of node"
proof (induction node arbitrary: results)
  case (TrieNode kids e s f l)
  have "fold (\<lambda>kv res. findAllWords (snd kv) res) ks acc
        = acc @ concat (map (\<lambda>kv. words_of (snd kv)) ks)" if "set ks \<subseteq> set kids" for ks acc
    using that
  proof (induction ks arbitrary: acc)
    case Nil
    then show ?case by simp
  next
    case (Cons k ks)
    then have "k \<in> set kids" by simp
    then have "findAllWords (snd k) acc = acc @ words_of (snd k)"
      using TrieNode.IH [of k "snd k" acc] by (simp add: snds.intros)
    then show ?case using Cons by simp
  qed
  then show ?case by simp
qed

lemma countNodes_words_of: "countNodes node count = count + length (words_of node)"
proof (induction node arbitrary: count)
  case (TrieNode kids e s f l)
  have "fold (\<lambda>kv cnt. countNodes (snd kv) cnt) ks acc
        = acc + length (concat (map (\<lambda>kv. words_of (snd kv)) ks))" if "set ks \<subseteq> set kids" for ks acc
    using that
  proof (induction ks arbitrary: acc)
    case Nil
    then show ?case by simp
  next
    case (Cons k ks)
    then have "k \<in> set kids" by simp
    then have "countNodes (snd k) acc = acc + length (words_of (snd k))"
      using TrieNode.IH [of k "snd k" acc] by (simp add: snds.intros)
    then show ?case using Cons by simp
  qed
  then show ?case by simp
qed

lemma words_of_child:
  "kv \<in> set (children node) \<Longrightarrow> set (words_of (snd kv)) \<subseteq> set (words_of node)"
  by (cases node) auto

lemma length_words_of_child:
  "kv \<in> set (children node) \<Longrightarrow> length (words_of (snd kv)) \<le> length (words_of node)"
proof (cases node)
  case (TrieNode kids e s f l)
  assume "kv \<in> set (children node)"
  then have "kv \<in> set kids" using TrieNode by simp
  then have "length (words_of (snd kv)) \<le> length (concat (map (\<lambda>kv. words_of (snd kv)) kids))"
    by (induction kids) auto
  then show ?thesis using TrieNode by simp
qed

lemma length_words_of_walk:
  "walk node p = Some m \<Longrightarrow> length (words_of m) \<le> length (words_of node)"
proof (induction p arbitrary: node)
  case Nil
  then show ?case by simp
next
  case (Cons c p)
  then obtain child where c: "map_of (children node) c = Some child" and w: "walk child p = Some m"
    by (auto split: option.splits)
  have "(c, child) \<in> set (children node)" using c by (rule map_of_SomeD)
  then have "length (words_of child) \<le> length (words_of node)"
    using length_words_of_child [of "(c, child)" node] by simp
  then show ?case using Cons.IH [OF w] by simp
qed

lemma walk_append: "walk node (p @ q) = (case walk node p of None \<Rightarrow> None | Some m \<Rightarrow> walk m q)"
  by (induction p arbitrary: node) (auto split: option.splits)

subsection \<open>Insertion\<close>

lemma walk_insert_node_prefix:
  "\<exists>m. walk (insert_node now sentence (p @ q) node) p = Some (insert_node now sentence q m)"
proof (induction p arbitrary: node)
  case Nil
  show ?case by (rule exI [of _ node]) simp
next
  case (Cons c p)
  show ?case
  proof (cases "map_of (children node) c")
    case None
    then show ?thesis using Cons [of new_TrieNode] by simp
  next
    case (Some child)
    then show ?thesis using Cons [of child] by simp
  qed
qed

lemma words_of_insert_node:
  "\<exists>f. \<lparr>s_text = trim sentence, s_frequency = f, s_lastUsed = now\<rparr>
        \<in> set (words_of (insert_node now sentence q node))"
proof (induction q arbitrary: node)
  case Nil
  then show ?case by auto
next
  case (Cons c q)
  show ?case
  proof (cases "map_of (children node) c")
    case None
    obtain f where "\<lparr>s_text = trim sentence, s_frequency = f, s_lastUsed = now\<rparr>
        \<in> set (words_of (insert_node now sentence q new_TrieNode))"
      using Cons [of new_TrieNode] by blast
    then show ?thesis using None by auto
  next
    case (Some child)
    obtain f where f: "\<lparr>s_text = trim sentence, s_frequency = f, s_lastUsed = now\<rparr>
        \<in> set (words_of (insert_node now sentence q child))"
      using Cons [of child] by blast
    have "(c, insert_node now sentence q child)
           \<in> set (set_child c (insert_node now sentence q child) (children node))"
      using Some by (simp add: set_child_mem)
    then show ?thesis using Some f by force
  qed
qed

lemma insert_node_new:
  "insert_node now s key new_TrieNode = chain key (TrieNode [] True (trim s) 1 now)"
  by (induction key) (auto simp: new_TrieNode_def)

lemma insert_node_chain:
  "insert_node now s key (chain key (TrieNode [] e txt f l))
   = chain key (TrieNode [] True (trim s) (f + 1) now)"
  by (induction key) auto

lemma words_of_chain: "words_of (chain key leaf) = words_of leaf"
  by (induction key) auto

lemma countTotalNodesHelper_chain:
  "countTotalNodesHelper (chain key (TrieNode [] e txt f l)) c = c + length key + 1"
  by (induction key arbitrary: c) auto

lemma isEndOfWord_insert_node_Cons [simp]:
  "isEndOfWord (insert_node now s (c # cs) n) = isEndOfWord n"
  by (simp split: option.splits)

lemma walk_insert_node_mono:
  "walk n p = Some m \<Longrightarrow>
   \<exists>m'. walk (insert_node now s key n) p = Some m' \<and> frequency m \<le> frequency m'"
proof (induction key arbitrary: n p)
  case Nil
  then show ?case by (cases p) auto
next
  case (Cons k key)
  show ?case
  proof (cases p)
    case Nil
    then show ?thesis using Cons.prems by (auto split: option.splits)
  next
    case p: (Cons c p')
    then obtain child where c: "map_of (children n) c = Some child" and w: "walk child p' = Some m"
      using Cons.prems by (auto split: option.splits)
    show ?thesis
    proof (cases "map_of (children n) k")
      case None
      then have "c \<noteq> k" using c by auto
      then show ?thesis using None c w p by simp
    next
      case (Some kchild)
      show ?thesis
      proof (cases "c = k")
        case True
        then have "kchild = child" using Some c by simp
        then show ?thesis using True Some p Cons.IH [OF w] by simp
      next
        case False
        then show ?thesis using Some c w p by simp
      qed
    qed
  qed
qed

subsection \<open>Selection\<close>

lemma select_node_id: "\<not> selected n key s \<Longrightarrow> select_node now s key n = n"
proof (induction key arbitrary: n)
  case Nil
  then show ?case by (cases n) (auto simp: selected_def)
next
  case (Cons c key)
  show ?case
  proof (cases "map_of (children n) c")
    case None
    then show ?thesis by simp
  next
    case (Some child)
    then have "\<not> selected child key s" using Cons.prems by (simp add: selected_def)
    then have "select_node now s key child = child" by (rule Cons.IH)
    then show ?thesis using Some by (cases n) (simp add: set_child_same)
  qed
qed

lemma walk_select_node:
  "selected n key s \<Longrightarrow>
   map_option node_fields (walk (select_node now s key n) p)
   = (if p = key
      then map_option (\<lambda>m. (map fst (children m), True, s, frequency m + 1, now)) (walk n key)
      else map_option node_fields (walk n p))"
proof (induction key arbitrary: n p)
  case Nil
  then show ?case by (cases p) (auto simp: selected_def node_fields_def [abs_def])
next
  case (Cons k key)
  then obtain child where c: "map_of (children n) k = Some child" and s: "selected child key s"
    by (auto simp: selected_def split: option.splits)
  show ?case
  proof (cases p)
    case Nil
    then show ?thesis using c by (simp add: node_fields_def)
  next
    case (Cons c' p')
    then show ?thesis using c Cons.IH [OF s, of p'] by auto
  qed
qed

lemma isEndOfWord_select_node [simp]:
  "isEndOfWord (select_node now s key n) = isEndOfWord n"
  by (cases key) (auto split: option.splits)

lemma walk_select_node_mono:
  "walk n p = Some m \<Longrightarrow>
   \<exists>m'. walk (select_node now s key n) p = Some m' \<and> frequency m \<le> frequency m'"
proof (induction key arbitrary: n p)
  case Nil
  then show ?case by (cases p) auto
next
  case (Cons k key)
  show ?case
  proof (cases p)
    case Nil
    then show ?thesis using Cons.prems by (auto split: option.splits)
  next
    case p: (Cons c p')
    then obtain child where c: "map_of (children n) c = Some child" and w: "walk child p' = Some m"
      using Cons.prems by (auto split: option.splits)
    show ?thesis
    proof (cases "map_of (children n) k")
      case None
      then show ?thesis using Cons.prems by simp
    next
      case (Some kchild)
      show ?thesis
      proof (cases "c = k")
        case True
        then have "kchild = child" using Some c by simp
        then show ?thesis using True Some p Cons.IH [OF w] by simp
      next
        case False
        then show ?thesis using Some c w p by simp
      qed
    qed
  qed
qed

lemma reachable_root: "reachable t \<Longrightarrow> \<not> isEndOfWord (root t)"
proof (induction rule: reachable.induct)
  case init
  then show ?case by (simp add: new_EnhancedTrie_def new_TrieNode_def)
next
  case (ins t now sentence)
  show ?case
  proof (cases sentence)
    case Nil
    then show ?thesis using ins.IH by (simp add: EnhancedTrie_insert_def)
  next
    case (Cons c cs)
    then have "processSentence sentence = toLowerCase_char c # toLowerCase cs"
      by (simp add: processSentence_def toLowerCase_def)
    then show ?thesis using ins.IH Cons
      by (simp add: EnhancedTrie_insert_def del: insert_node.simps)
  qed
next
  case (sel t now sentence)
  then show ?case by (simp add: EnhancedTrie_recordSelection_def)
qed

subsection \<open>Properties of every node\<close>

lemma every_node_insert_node:
  assumes "P False [] 0 0" and "\<And>e s' f l. P e s' f l \<Longrightarrow> P True (trim s) (f + 1) now"
  shows "every_node P n \<Longrightarrow> every_node P (insert_node now s key n)"
proof (induction key arbitrary: n)
  case Nil
  then show ?case using assms(2) by (cases n) auto
next
  case (Cons c key)
  obtain kids e s' f l where n: "n = TrieNode kids e s' f l" by (cases n)
  show ?case
  proof (cases "map_of kids c")
    case None
    have "every_node P new_TrieNode" using assms(1) by (simp add: new_TrieNode_def)
    then have "every_node P (insert_node now s key new_TrieNode)" by (rule Cons.IH)
    then show ?thesis using None Cons.prems n by auto
  next
    case (Some child)
    then have "(c, child) \<in> set kids" by (rule map_of_SomeD)
    then have "every_node P child" using Cons.prems n by auto
    then have "every_node P (insert_node now s key child)" by (rule Cons.IH)
    then show ?thesis using Some Cons.prems n set_set_child [of c "insert_node now s key child" kids]
      by auto
  qed
qed

lemma every_node_select_node:
  assumes "\<And>s' f l. P True s' f l \<Longrightarrow> P True s' (f + 1) now"
  shows "every_node P n \<Longrightarrow> every_node P (select_node now s key n)"
proof (induction key arbitrary: n)
  case Nil
  then show ?case using assms by (cases n) auto
next
  case (Cons c key)
  obtain kids e s' f l where n: "n = TrieNode kids e s' f l" by (cases n)
  show ?case
  proof (cases "map_of kids c")
    case None
    then show ?thesis using Cons.prems n by simp
  next
    case (Some child)
    then have "(c, child) \<in> set kids" by (rule map_of_SomeD)
    then have "every_node P child" using Cons.prems n by auto
    then have "every_node P (select_node now s key child)" by (rule Cons.IH)
    then show ?thesis using Some Cons.prems n set_set_child [of c "select_node now s key child" kids]
      by auto
  qed
qed

lemma every_node_walk:
  "every_node P n \<Longrightarrow> walk n p = Some m \<Longrightarrow>
   P (isEndOfWord m) (fullSentence m) (frequency m) (lastUsed m)"
proof (induction p arbitrary: n)
  case Nil
  then show ?case by (cases n) auto
next
  case (Cons c p)
  obtain kids e s' f l where n: "n = TrieNode kids e s' f l" by (cases n)
  from Cons.prems(2) obtain child where c: "map_of kids c = Some child" and w: "walk child p = Some m"
    using n by (auto split: option.splits)
  have "(c, child) \<in> set kids" using c by (rule map_of_SomeD)
  then have "every_node P child" using Cons.prems(1) n by auto
  then show ?case using w by (rule Cons.IH)
qed

lemma every_node_sub: "every_node P n \<Longrightarrow> walk n p = Some m \<Longrightarrow> every_node P m"
proof (induction p arbitrary: n)
  case Nil
  then show ?case by simp
next
  case (Cons c p)
  obtain kids e s' f l where n: "n = TrieNode kids e s' f l" by (cases n)
  from Cons.prems(2) obtain child where c: "map_of kids c = Some child" and w: "walk child p = Some m"
    using n by (auto split: option.splits)
  have "(c, child) \<in> set kids" using c by (rule map_of_SomeD)
  then have "every_node P child" using Cons.prems(1) n by auto
  then show ?case using w by (rule Cons.IH)
qed

lemma every_node_words:
  "every_node P n \<Longrightarrow> w \<in> set (words_of n) \<Longrightarrow> P True (s_text w) (s_frequency w) (s_lastUsed w)"
proof (induction n)
  case (TrieNode kids e s f l)
  from TrieNode.prems(2) consider
      (here) "e" "w = \<lparr>s_text = s, s_frequency = f, s_lastUsed = l\<rparr>"
    | (below) kv where "kv \<in> set kids" "w \<in> set (words_of (snd kv))"
    by (auto split: if_splits)
  then show ?case
  proof cases
    case here
    then show ?thesis using TrieNode.prems(1) by simp
  next
    case below
    then have "every_node P (snd kv)" using TrieNode.prems(1) by simp
    then show ?thesis using TrieNode.IH [of kv "snd kv"] below by (simp add: snds.intros)
  qed
qed

lemma reachable_frequency: "reachable t \<Longrightarrow> every_node (\<lambda>e s f l. e \<longrightarrow> 1 \<le> f) (root t)"
proof (induction rule: reachable.induct)
  case init
  then show ?case by (simp add: new_EnhancedTrie_def new_TrieNode_def)
next
  case (ins t now sentence)
  then show ?case by (simp add: EnhancedTrie_insert_def every_node_insert_node)
next
  case (sel t now sentence)
  then show ?case by (simp add: EnhancedTrie_recordSelection_def every_node_select_node)
qed

subsection \<open>The recursion of the distance\<close>

text \<open>
  One edit changes the distance to any third string by at most one.
\<close>

lemma lev_Nil2 [simp]: "lev xs [] = length xs"
  by (cases xs) auto

lemma lev_sym: "lev xs ys = lev ys xs"
  by (induction xs ys rule: lev.induct) (auto simp: min.commute min.left_commute)

lemma lev_refl: "lev xs xs = 0"
  by (induction xs) auto

lemma lev_del_le: "lev (x # xs) ys \<le> lev xs ys + 1"
  by (cases ys) (auto simp: lev_Nil2)

lemma lev_ins_le: "lev xs (y # ys) \<le> lev xs ys + 1"
  by (cases xs) (auto simp: lev_Nil2)

lemma lev_del_ge: "lev xs ys \<le> lev (x # xs) ys + 1"
proof (induction ys arbitrary: x xs)
  case Nil
  then show ?case by (simp add: lev_Nil2)
next
  case (Cons y ys)
  have a: "lev xs (y # ys) \<le> lev xs ys + 1" by (rule lev_ins_le)
  have b: "lev xs ys \<le> lev (x # xs) ys + 1" by (rule Cons.IH)
  show ?case using a b by (auto simp: min_def)
qed

lemma lev_ins_ge: "lev xs ys \<le> lev xs (y # ys) + 1"
  using lev_del_ge [of ys xs y] by (simp add: lev_sym)

lemma lev_cong_le: "(\<And>a. lev a ys' \<le> lev a ys + 1) \<Longrightarrow> lev a (c # ys') \<le> lev a (c # ys) + 1"
proof (induction a)
  case Nil
  then show ?case using Nil [of "[]"] by simp
next
  case (Cons x xs)
  have 1: "lev xs (c # ys') \<le> lev xs (c # ys) + 1" using Cons by blast
  have 2: "lev (x # xs) ys' \<le> lev (x # xs) ys + 1" using Cons.prems by blast
  have 3: "lev xs ys' \<le> lev xs ys + 1" using Cons.prems by blast
  show ?case using 1 2 3 by (auto simp: min_def)
qed

lemma lev_sub_le: "lev a (d # xs) \<le> lev a (c # xs) + 1"
proof (induction a)
  case Nil
  then show ?case by simp
next
  case (Cons x a)
  then show ?case by (auto simp: min_def)
qed

lemma lev_edit1: "edit1 A ys ys' \<Longrightarrow> lev a ys' \<le> lev a ys + 1"
proof (induction arbitrary: a rule: edit1.induct)
  case (ins c xs)
  show ?case using lev_ins_le [of a c xs] by simp
next
  case (del c xs)
  show ?case using lev_ins_ge [of a xs c] by simp
next
  case (sub d c xs)
  show ?case by (rule lev_sub_le)
next
  case (cong xs ys c)
  then show ?case by (intro lev_cong_le) 
qed

subsection \<open>Edit sequences\<close>

text \<open>
  A string is reached from another by as many edits as their distance, and by no fewer; the edits may be mirrored.
\<close>

lemma edit_rel_cong: "(w, t) \<in> edit_rel A ^^ n \<Longrightarrow> (c # w, c # t) \<in> edit_rel A ^^ n"
proof (induction n arbitrary: t)
  case 0
  then show ?case by simp
next
  case (Suc n)
  then obtain u where u: "(w, u) \<in> edit_rel A ^^ n" and e: "edit1 A u t"
    by (auto simp: edit_rel_def)
  have "(c # w, c # u) \<in> edit_rel A ^^ n" using Suc.IH u by blast
  moreover have "(c # u, c # t) \<in> edit_rel A" using e by (simp add: edit_rel_def edit1.cong)
  ultimately show ?case by auto
qed

lemma edit_rel_step_first:
  "edit1 A w u \<Longrightarrow> (u, t) \<in> edit_rel A ^^ n \<Longrightarrow> (w, t) \<in> edit_rel A ^^ Suc n"
proof -
  assume "edit1 A w u" and r: "(u, t) \<in> edit_rel A ^^ n"
  then have "(w, u) \<in> edit_rel A" by (simp add: edit_rel_def)
  then show ?thesis using r by (rule relpow_Suc_I2)
qed

lemma reach_Nil: "set ys \<subseteq> A \<Longrightarrow> ([], ys) \<in> edit_rel A ^^ length ys"
proof (induction ys)
  case Nil
  then show ?case by simp
next
  case (Cons y ys)
  have a: "edit1 A [] [y]" using Cons.prems by (simp add: edit1.ins)
  have b: "([y], y # ys) \<in> edit_rel A ^^ length ys"
    using Cons by (simp add: edit_rel_cong)
  show ?case using edit_rel_step_first [OF a b] by simp
qed

lemma reach_Nil2: "(xs, []) \<in> edit_rel A ^^ length xs"
proof (induction xs)
  case Nil
  then show ?case by simp
next
  case (Cons x xs)
  have "edit1 A (x # xs) xs" by (rule edit1.del)
  then show ?case using edit_rel_step_first [OF _ Cons] by simp
qed

lemma reach_lev: "set t \<subseteq> A \<Longrightarrow> (w, t) \<in> edit_rel A ^^ lev w t"
proof (induction w t rule: lev.induct)
  case (1 ys)
  then show ?case by (simp add: reach_Nil)
next
  case (2 v va)
  show ?case using reach_Nil2 [of "v # va" A] by simp
next
  case (3 x xs y ys)
  let ?a = "lev xs (y # ys) + 1" and ?b = "lev (x # xs) ys + 1"
  let ?c = "lev xs ys + (if x = y then 0 else 1)"
  have yA: "y \<in> A" and ysA: "set ys \<subseteq> A" using "3.prems" by auto
  have ra: "(x # xs, y # ys) \<in> edit_rel A ^^ ?a"
    using edit_rel_step_first [OF edit1.del "3.IH"(1) [OF "3.prems"]] by simp
  have rb: "(x # xs, y # ys) \<in> edit_rel A ^^ ?b"
    using edit_rel_step_first [OF edit1.ins [OF yA] edit_rel_cong [OF "3.IH"(2) [OF ysA]]]
    by simp
  have rc: "(x # xs, y # ys) \<in> edit_rel A ^^ ?c"
  proof (cases "x = y")
    case True
    then show ?thesis using edit_rel_cong [OF "3.IH"(3) [OF ysA], of y] by simp
  next
    case False
    then show ?thesis
      using edit_rel_step_first [OF edit1.sub [OF yA] edit_rel_cong [OF "3.IH"(3) [OF ysA]]]
      by simp
  qed
  have "lev (x # xs) (y # ys) = ?a \<or> lev (x # xs) (y # ys) = ?b \<or> lev (x # xs) (y # ys) = ?c"
    by (simp add: min_def)
  then show ?case
  proof (elim disjE)
    assume "lev (x # xs) (y # ys) = ?a"
    then show ?thesis using ra by (simp only:)
  next
    assume "lev (x # xs) (y # ys) = ?b"
    then show ?thesis using rb by (simp only:)
  next
    assume "lev (x # xs) (y # ys) = ?c"
    then show ?thesis using rc by (simp only:)
  qed
qed

lemma lev_reach_le: "(w, t) \<in> edit_rel A ^^ n \<Longrightarrow> lev a t \<le> lev a w + n"
proof (induction n arbitrary: t)
  case 0
  then show ?case by simp
next
  case (Suc n)
  then obtain u where u: "(w, u) \<in> edit_rel A ^^ n" and e: "edit1 A u t"
    by (auto simp: edit_rel_def)
  have "lev a u \<le> lev a w + n" using Suc.IH u by blast
  moreover have "lev a t \<le> lev a u + 1" using e by (rule lev_edit1)
  ultimately show ?case by simp
qed

lemma lev_triangle: "lev a b \<le> lev a c + lev c b"
  using lev_reach_le [OF reach_lev [of b UNIV c], of a] by simp

lemma edit1_snoc: "edit1 A xs ys \<Longrightarrow> edit1 A (xs @ [c]) (ys @ [c])"
  by (induction rule: edit1.induct) (auto intro: edit1.intros)

lemma edit1_ins_back: "c \<in> A \<Longrightarrow> edit1 A xs (xs @ [c])"
  by (induction xs) (auto intro: edit1.intros)

lemma edit1_del_back: "edit1 A (xs @ [c]) xs"
  by (induction xs) (auto intro: edit1.intros)

lemma edit1_sub_back: "d \<in> A \<Longrightarrow> edit1 A (xs @ [c]) (xs @ [d])"
  by (induction xs) (auto intro: edit1.intros)

lemma edit1_rev: "edit1 A xs ys \<Longrightarrow> edit1 A (rev xs) (rev ys)"
  by (induction rule: edit1.induct)
     (auto intro: edit1_snoc edit1_ins_back edit1_del_back edit1_sub_back)

lemma edit_rel_rev: "(w, t) \<in> edit_rel A ^^ n \<Longrightarrow> (rev w, rev t) \<in> edit_rel A ^^ n"
proof (induction n arbitrary: t)
  case 0
  then show ?case by simp
next
  case (Suc n)
  then obtain u where u: "(w, u) \<in> edit_rel A ^^ n" and e: "edit1 A u t"
    by (auto simp: edit_rel_def)
  have "(rev w, rev u) \<in> edit_rel A ^^ n" using Suc.IH u by blast
  moreover have "(rev u, rev t) \<in> edit_rel A" using e by (simp add: edit_rel_def edit1_rev)
  ultimately show ?case by auto
qed

lemma lev_rev_le: "lev (rev a) (rev b) \<le> lev a b"
  using lev_reach_le [OF edit_rel_rev [OF reach_lev [of b UNIV a]], of "rev a"]
  by (simp add: lev_refl)

lemma lev_rev: "lev (rev a) (rev b) = lev a b"
  using lev_rev_le [of a b] lev_rev_le [of "rev a" "rev b"] by simp

lemma lev_eq_0_iff: "lev a b = 0 \<longleftrightarrow> a = b"
proof (induction a b rule: lev.induct)
  case (1 ys)
  then show ?case by auto
next
  case (2 v va)
  then show ?case by auto
next
  case (3 x xs y ys)
  then show ?case by (auto simp: min_def split: if_splits)
qed

lemma lev_least_edits: "lev w t = (LEAST n. (w, t) \<in> edit_rel UNIV ^^ n)"
proof (rule Least_equality [symmetric])
  show "(w, t) \<in> edit_rel UNIV ^^ lev w t" by (rule reach_lev) simp
next
  fix n assume "(w, t) \<in> edit_rel UNIV ^^ n"
  then show "lev w t \<le> n"
    using lev_reach_le [where a = w and w = w and t = t and n = n] by (simp add: lev_refl)
qed

subsection \<open>The matrix computes the distance\<close>

lemma dp_set_dims: "dp_dims m n dp \<Longrightarrow> i \<le> m \<Longrightarrow> dp_dims m n (dp_set dp i j v)"
  by (auto simp: dp_dims_def dp_set_def nth_list_update)

lemma dp_set_nth:
  "dp_dims m n dp \<Longrightarrow> i \<le> m \<Longrightarrow> j \<le> n \<Longrightarrow> r \<le> m \<Longrightarrow> c \<le> n \<Longrightarrow>
   dp_set dp i j v ! r ! c = (if r = i \<and> c = j then v else dp ! r ! c)"
  by (auto simp: dp_dims_def dp_set_def nth_list_update)

lemma dp_init_ok: "dp_init_ok m n (m + 1) (n + 1) (dp_init m n)"
proof -
  let ?dp0 = "replicate (m + 1) (replicate (n + 1) (0::nat))"
  let ?dp1 = "fold (\<lambda>i dp. dp_set dp i 0 i) [0..<m + 1] ?dp0"
  have 0: "dp_init_ok m n 0 0 ?dp0"
    by (auto simp: dp_init_ok_def dp_dims_def nth_Cons')
  have 1: "dp_init_ok m n (m + 1) 0 ?dp1"
  proof (rule fold_upt_inv [where P = "\<lambda>k. dp_init_ok m n k 0"])
    show "dp_init_ok m n 0 0 ?dp0" by (rule 0)
    show "0 \<le> m + 1" by simp
    fix k s assume "k < m + 1" and "dp_init_ok m n k 0 s"
    then show "dp_init_ok m n (Suc k) 0 (dp_set s k 0 k)"
      by (auto simp: dp_init_ok_def dp_set_dims dp_set_nth)
  qed
  have 2: "dp_init_ok m n (m + 1) (n + 1) (fold (\<lambda>j dp. dp_set dp 0 j j) [0..<n + 1] ?dp1)"
  proof (rule fold_upt_inv [where P = "\<lambda>k. dp_init_ok m n (m + 1) k"])
    show "dp_init_ok m n (m + 1) 0 ?dp1" by (rule 1)
    show "0 \<le> n + 1" by simp
    fix k s assume "k < n + 1" and "dp_init_ok m n (m + 1) k s"
    then show "dp_init_ok m n (m + 1) (Suc k) (dp_set s 0 k k)"
      by (auto simp: dp_init_ok_def dp_set_dims dp_set_nth)
  qed
  show ?thesis using 2 by (simp add: dp_init_def Let_def)
qed

lemma levD_0: "j \<le> length s2 \<Longrightarrow> levD s1 s2 0 j = j" "i \<le> length s1 \<Longrightarrow> levD s1 s2 i 0 = i"
  by (simp_all add: levD_def)

lemma levD_Suc:
  "i < length s1 \<Longrightarrow> j < length s2 \<Longrightarrow>
   levD s1 s2 (Suc i) (Suc j) =
     min (min (levD s1 s2 i (Suc j) + 1) (levD s1 s2 (Suc i) j + 1))
         (levD s1 s2 i j + (if s1 ! i = s2 ! j then 0 else 1))"
  by (simp add: levD_def take_Suc_conv_app_nth)

lemma dp_ok_init: "dp_ok s1 s2 1 0 (dp_init (length s1) (length s2))"
  using dp_init_ok [of "length s1" "length s2"]
  by (auto simp: dp_ok_def dp_init_ok_def levD_0)

lemma dp_ok_set:
  assumes ok: "dp_ok s1 s2 i j dp" and i: "1 \<le> i" "i \<le> length s1" and j: "j < length s2"
    and v: "v = levD s1 s2 i (Suc j)"
  shows "dp_ok s1 s2 i (Suc j) (dp_set dp i (Suc j) v)"
  unfolding dp_ok_def
proof (intro conjI allI impI)
  have dims: "dp_dims (length s1) (length s2) dp" using ok by (simp add: dp_ok_def)
  show "dp_dims (length s1) (length s2) (dp_set dp i (Suc j) v)"
    using dims i by (simp add: dp_set_dims)
  fix r c
  assume r: "r \<le> length s1" and c: "c \<le> length s2"
    and h: "r = 0 \<or> c = 0 \<or> r < i \<or> r = i \<and> c \<le> Suc j"
  have eq: "dp_set dp i (Suc j) v ! r ! c = (if r = i \<and> c = Suc j then v else dp ! r ! c)"
    using dims i j r c by (intro dp_set_nth) auto
  show "dp_set dp i (Suc j) v ! r ! c = levD s1 s2 r c"
  proof (cases "r = i \<and> c = Suc j")
    case True
    then show ?thesis using eq v by simp
  next
    case False
    then have "r = 0 \<or> c = 0 \<or> r < i \<or> r = i \<and> c \<le> j" using h by auto
    then have "dp ! r ! c = levD s1 s2 r c" using ok r c unfolding dp_ok_def by blast
    then show ?thesis using eq False by presburger
  qed
qed

lemma dp_ok_step:
  assumes ok: "dp_ok s1 s2 i j dp" and i: "1 \<le> i" "i \<le> length s1" and j: "j < length s2"
  shows "dp_ok s1 s2 i (Suc j) (dp_step s1 s2 i (Suc j) dp)"
proof -
  obtain i' where i': "i = Suc i'" using i(1) by (cases i) auto
  have v1: "dp ! i' ! Suc j = levD s1 s2 i' (Suc j)"
    using ok i j i' unfolding dp_ok_def by auto
  have v2: "dp ! i ! j = levD s1 s2 i j"
    using ok i j unfolding dp_ok_def by auto
  have v3: "dp ! i' ! j = levD s1 s2 i' j"
    using ok i j i' unfolding dp_ok_def by auto
  have new: "min (min (dp ! (i - 1) ! Suc j + 1) (dp ! i ! (Suc j - 1) + 1))
                 (dp ! (i - 1) ! (Suc j - 1) + (if s1 ! (i - 1) = s2 ! (Suc j - 1) then 0 else 1))
             = levD s1 s2 i (Suc j)"
    using v1 v2 v3 i j i' by (simp add: levD_Suc)
  show ?thesis
    unfolding dp_step_def Let_def by (rule dp_ok_set [OF ok i j new])
qed

lemma dp_ok_next:
  assumes "dp_ok s1 s2 i (length s2) dp"
  shows "dp_ok s1 s2 (Suc i) 0 dp"
  unfolding dp_ok_def
proof (intro conjI allI impI)
  show "dp_dims (length s1) (length s2) dp" using assms by (simp add: dp_ok_def)
  fix r c
  assume r: "r \<le> length s1" and c: "c \<le> length s2"
    and h: "r = 0 \<or> c = 0 \<or> r < Suc i \<or> r = Suc i \<and> c \<le> 0"
  from h c have "r = 0 \<or> c = 0 \<or> r < i \<or> r = i \<and> c \<le> length s2" by auto
  then show "dp ! r ! c = levD s1 s2 r c" using assms r c unfolding dp_ok_def by blast
qed

lemma dp_ok_row:
  assumes ok: "dp_ok s1 s2 i 0 dp" and i: "1 \<le> i" "i \<le> length s1"
  shows "dp_ok s1 s2 (Suc i) 0
           (fold (\<lambda>j dp. dp_step s1 s2 i j dp) [1..<length s2 + 1] dp)"
proof -
  have "dp_ok s1 s2 i (length s2)
          (fold (\<lambda>j dp. dp_step s1 s2 i j dp) [1..<length s2 + 1] dp)"
  proof (cases "length s2")
    case 0
    then show ?thesis using ok by simp
  next
    case (Suc n')
    have "dp_ok s1 s2 i (length s2 + 1 - 1)
          (fold (\<lambda>j dp. dp_step s1 s2 i j dp) [1..<length s2 + 1] dp)"
    proof (rule fold_upt_inv [where P = "\<lambda>k. dp_ok s1 s2 i (k - 1)"])
      show "dp_ok s1 s2 i (1 - 1) dp" using ok by simp
      show "1 \<le> length s2 + 1" by simp
      fix k s assume k: "1 \<le> k" "k < length s2 + 1" and "dp_ok s1 s2 i (k - 1) s"
      then have "dp_ok s1 s2 i (Suc (k - 1)) (dp_step s1 s2 i (Suc (k - 1)) s)"
        using i by (intro dp_ok_step) auto
      then show "dp_ok s1 s2 i (Suc k - 1) (dp_step s1 s2 i k s)" using k by simp
    qed
    then show ?thesis by simp
  qed
  then show ?thesis by (rule dp_ok_next)
qed

lemma dp_ok_fill:
  "dp_ok s1 s2 (length s1 + 1) 0
     (fold (\<lambda>i dp. fold (\<lambda>j dp. dp_step s1 s2 i j dp) [1..<length s2 + 1] dp)
        [1..<length s1 + 1] (dp_init (length s1) (length s2)))"
proof (rule fold_upt_inv [where P = "\<lambda>k. dp_ok s1 s2 k 0"])
  show "dp_ok s1 s2 1 0 (dp_init (length s1) (length s2))" by (rule dp_ok_init)
  show "1 \<le> length s1 + 1" by simp
  fix k s assume "1 \<le> k" "k < length s1 + 1" "dp_ok s1 s2 k 0 s"
  then show "dp_ok s1 s2 (Suc k) 0 (fold (\<lambda>j dp. dp_step s1 s2 k j dp) [1..<length s2 + 1] s)"
    by (intro dp_ok_row) auto
qed

lemma levenshteinDistance_lev: "levenshteinDistance s1 s2 = lev s1 s2"
proof -
  define dp where "dp = fold (\<lambda>i dp. fold (\<lambda>j dp. dp_step s1 s2 i j dp) [1..<length s2 + 1] dp)
        [1..<length s1 + 1] (dp_init (length s1) (length s2))"
  have "dp_ok s1 s2 (length s1 + 1) 0 dp" unfolding dp_def by (rule dp_ok_fill)
  then have "dp ! length s1 ! length s2 = levD s1 s2 (length s1) (length s2)"
    unfolding dp_ok_def by auto
  also have "\<dots> = lev s1 s2" by (simp add: levD_def lev_rev)
  finally have main: "dp ! length s1 ! length s2 = lev s1 s2" .
  consider (eq) "s1 = s2" | (e1) "s1 \<noteq> s2" "s1 = []" | (e2) "s1 \<noteq> s2" "s1 \<noteq> []" "s2 = []"
    | (ne) "s1 \<noteq> s2" "s1 \<noteq> []" "s2 \<noteq> []" by blast
  then show ?thesis
  proof cases
    case eq
    then show ?thesis by (simp add: levenshteinDistance_def lev_refl)
  next
    case e1
    then show ?thesis by (simp add: levenshteinDistance_def)
  next
    case e2
    then show ?thesis by (simp add: levenshteinDistance_def)
  next
    case ne
    then have "levenshteinDistance s1 s2 = dp ! length s1 ! length s2"
      unfolding levenshteinDistance_def Let_def dp_def by (simp only: if_not_P if_False)
    then show ?thesis using main by simp
  qed
qed

subsection \<open>Variations\<close>

lemma set_addEdits: "set (addEdits w v) = set v \<union> edits_of w"
  unfolding addEdits_def Let_def set_fold_fold_set_add set_fold_set_add edits_of_def set_upt
  by (simp only: Un_assoc)

lemma edits_of_delI: "i < length w \<Longrightarrow> take i w @ drop (i + 1) w \<in> edits_of w"
  unfolding edits_of_def by simp

lemma edits_of_subI:
  assumes "i < length w" "c \<in> set chars"
  shows "take i w @ [c] @ drop (i + 1) w \<in> edits_of w"
proof -
  have "take i w @ [c] @ drop (i + 1) w
        \<in> (\<Union>i \<in> {0..<length w}. (\<lambda>c. take i w @ [c] @ drop (i + 1) w) ` set chars)"
    using assms by auto
  then show ?thesis unfolding edits_of_def by blast
qed

lemma edits_of_insI:
  assumes "i \<le> length w" "c \<in> set chars"
  shows "take i w @ [c] @ drop i w \<in> edits_of w"
proof -
  have "take i w @ [c] @ drop i w
        \<in> (\<Union>i \<in> {0..<length w + 1}. (\<lambda>c. take i w @ [c] @ drop i w) ` set chars)"
    using assms by auto
  then show ?thesis unfolding edits_of_def by blast
qed

lemma edit_at_edits_of: "edit_at w w' \<Longrightarrow> w' \<in> edits_of w"
  unfolding edit_at_def using edits_of_delI edits_of_subI edits_of_insI by blast

lemma edit_at_Cons: "edit_at xs ys \<Longrightarrow> edit_at (c # xs) (c # ys)"
proof -
  assume "edit_at xs ys"
  then consider
      (a) i where "i < length xs" "ys = take i xs @ drop (i + 1) xs"
    | (b) i d where "i < length xs" "d \<in> set chars" "ys = take i xs @ [d] @ drop (i + 1) xs"
    | (c) i d where "i \<le> length xs" "d \<in> set chars" "ys = take i xs @ [d] @ drop i xs"
    unfolding edit_at_def by blast
  then show ?thesis
  proof cases
    case a
    then have "Suc i < length (c # xs) \<and> c # ys = take (Suc i) (c # xs) @ drop (Suc i + 1) (c # xs)"
      by simp
    then show ?thesis unfolding edit_at_def by blast
  next
    case b
    then have "Suc i < length (c # xs) \<and> d \<in> set chars \<and>
        c # ys = take (Suc i) (c # xs) @ [d] @ drop (Suc i + 1) (c # xs)"
      by simp
    then show ?thesis unfolding edit_at_def by blast
  next
    case c
    then have "Suc i \<le> length (c # xs) \<and> d \<in> set chars \<and>
        c # ys = take (Suc i) (c # xs) @ [d] @ drop (Suc i) (c # xs)"
      by simp
    then show ?thesis unfolding edit_at_def by blast
  qed
qed

lemma edit1_edit_at: "edit1 (set chars) w w' \<Longrightarrow> edit_at w w'"
proof (induction rule: edit1.induct)
  case (ins c xs)
  have "0 \<le> length xs \<and> c \<in> set chars \<and> c # xs = take 0 xs @ [c] @ drop 0 xs"
    using ins by simp
  then show ?case unfolding edit_at_def by blast
next
  case (del c xs)
  have "0 < length (c # xs) \<and> xs = take 0 (c # xs) @ drop (0 + 1) (c # xs)" by simp
  then show ?case unfolding edit_at_def by blast
next
  case (sub d c xs)
  have "0 < length (c # xs) \<and> d \<in> set chars \<and> d # xs = take 0 (c # xs) @ [d] @ drop (0 + 1) (c # xs)"
    using sub by simp
  then show ?case unfolding edit_at_def by blast
next
  case (cong xs ys c)
  then show ?case by (simp add: edit_at_Cons)
qed

lemma edit1_edits_of: "edit1 (set chars) w w' \<Longrightarrow> w' \<in> edits_of w"
  by (simp add: edit1_edit_at edit_at_edits_of)

lemma set_fold_addEdits: "set (fold (\<lambda>w v. addEdits w v) cur v) = set v \<union> (\<Union>w \<in> set cur. edits_of w)"
  by (induction cur arbitrary: v) (auto simp: set_addEdits)

lemma set_variation_round:
  "set (variation_round v) = set v \<union> (\<Union>w \<in> set v. edits_of w)"
  by (simp add: variation_round_def set_fold_addEdits)

lemma variation_round_eq: "(\<lambda>variations. fold addEdits variations variations) = variation_round"
  by (simp add: variation_round_def fun_eq_iff)

lemma getVariations_rounds:
  "word \<noteq> [] \<Longrightarrow> getVariations k word = (variation_round ^^ nat k) [word]"
  by (auto simp: getVariations_def new_Set_def set_add_def Let_def fold_const variation_round_eq)

lemma reach_rounds:
  "(w, t) \<in> edit_rel (set chars) ^^ n \<Longrightarrow> n \<le> k \<Longrightarrow> t \<in> set ((variation_round ^^ k) [w])"
proof (induction k arbitrary: n t)
  case 0
  then show ?case by simp
next
  case (Suc k)
  show ?case
  proof (cases "n \<le> k")
    case True
    then show ?thesis using Suc.IH [OF Suc.prems(1)] by (simp add: set_variation_round)
  next
    case False
    then have "n = Suc k" using Suc.prems(2) by simp
    then obtain u where u: "(w, u) \<in> edit_rel (set chars) ^^ k" and e: "edit1 (set chars) u t"
      using Suc.prems(1) by (auto simp: edit_rel_def)
    have "u \<in> set ((variation_round ^^ k) [w])" using Suc.IH [OF u] by simp
    moreover have "t \<in> edits_of u" using e by (rule edit1_edits_of)
    ultimately show ?thesis by (auto simp: set_variation_round)
  qed
qed

subsection \<open>Ranking and the read operations\<close>

lemma case_insensitive:
  "processSentence p = processSentence q \<Longrightarrow>
   EnhancedTrie_autocomplete t p limit = EnhancedTrie_autocomplete t q limit"
proof -
  assume a: "processSentence p = processSentence q"
  then have "p = [] \<longleftrightarrow> q = []" by (auto simp: processSentence_def toLowerCase_def)
  then show ?thesis using a by (simp add: EnhancedTrie_autocomplete_def)
qed

lemma length_rankSuggestions: "0 \<le> l \<Longrightarrow> length (rankSuggestions xs l) \<le> nat l"
  by (simp add: rankSuggestions_def length_slice0)

lemma sorted_final:
  "sorted_wrt (\<lambda>a b. c_frequency b \<le> c_frequency a) (sort_by final_cmp xs)"
proof (rule sorted_wrt_sort_by)
  show "transp (\<lambda>a b. c_frequency b \<le> c_frequency a)" by (auto intro: transpI)
  show "\<And>x y. final_cmp x y \<le> 0 \<Longrightarrow> c_frequency y \<le> c_frequency x"
    by (auto simp: final_cmp_def split: if_splits)
  show "\<And>x y. \<not> final_cmp x y \<le> 0 \<Longrightarrow> c_frequency x \<le> c_frequency y"
    by (auto simp: final_cmp_def split: if_splits)
qed

lemma sorted_take_order:
  assumes s: "sorted_wrt (\<lambda>a b. c_frequency b \<le> c_frequency a) xs"
    and x: "x \<in> set xs" and lt: "c_frequency y < c_frequency x"
  shows "(y \<in> set (take n xs) \<longrightarrow> x \<in> set (take n xs)) \<and>
         (\<forall>i j. i < length (take n xs) \<and> j < length (take n xs) \<and> take n xs ! i = x \<and> take n xs ! j = y
            \<longrightarrow> i < j)"
proof (intro conjI allI impI)
  assume "y \<in> set (take n xs)"
  then obtain j where j: "j < length (take n xs)" "take n xs ! j = y" by (auto simp: in_set_conv_nth)
  then have jx: "j < n" "j < length xs" "xs ! j = y" by simp_all
  obtain i where i: "i < length xs" "xs ! i = x" using x by (auto simp: in_set_conv_nth)
  have "i < n"
  proof (rule ccontr)
    assume "\<not> i < n"
    then have "j < i" using jx by simp
    then have "c_frequency (xs ! i) \<le> c_frequency (xs ! j)"
      using s i(1) unfolding sorted_wrt_iff_nth_less by blast
    then show False using i jx lt by simp
  qed
  then have "take n xs ! i = x" "i < length (take n xs)" using i by simp_all
  then show "x \<in> set (take n xs)" by (metis nth_mem)
next
  fix i j
  assume a: "i < length (take n xs) \<and> j < length (take n xs) \<and> take n xs ! i = x \<and> take n xs ! j = y"
  then have ix: "i < length xs" "xs ! i = x" and jx: "j < length xs" "xs ! j = y" by auto
  show "i < j"
  proof (rule ccontr)
    assume "\<not> i < j"
    then consider "i = j" | "j < i" by linarith
    then show False
    proof cases
      case 1
      then show ?thesis using ix jx lt by simp
    next
      case 2
      then have "c_frequency (xs ! i) \<le> c_frequency (xs ! j)"
        using s ix(1) unfolding sorted_wrt_iff_nth_less by blast
      then show ?thesis using ix jx lt by simp
    qed
  qed
qed

lemma suggestionsWithFrequency_eq:
  "suggestionsWithFrequency t variation suggestions
   = (if suggestions = [] then Inr [] else Inl TypeError)"
  by (cases suggestions) (simp_all add: getFrequency_def)

lemma allSuggestions2_eq:
  "allSuggestions2 a limit variations allSuggestions
   = (if \<exists>variation \<in> set variations.
           EnhancedTrie_autocomplete (trie a) variation (Some limit) \<noteq> []
      then Inl TypeError else Inr allSuggestions)"
  by (induction variations arbitrary: allSuggestions)
     (simp_all add: suggestionsWithFrequency_eq)

lemma word_in_getVariations: "word \<in> set (getVariations k word)"
proof (cases "word = []")
  case True
  then show ?thesis by (simp add: getVariations_def new_Set_def set_add_def)
next
  case False
  have "(word, word) \<in> edit_rel (set chars) ^^ 0" by simp
  then have "word \<in> set ((variation_round ^^ nat k) [word])" by (rule reach_rounds) simp
  then show ?thesis using False by (simp add: getVariations_rounds)
qed

lemma autocomplete2_eq:
  "FuzzyTrieAutocomplete_autocomplete2 a query limit
   = (if query \<noteq> [] \<and>
         (\<exists>variation \<in> set (getVariations (maxDistance a) query).
            EnhancedTrie_autocomplete (trie a) variation (Some (default_limit limit)) \<noteq> [])
      then Inl TypeError else Inr [])"
  by (simp add: FuzzyTrieAutocomplete_autocomplete2_def allSuggestions2_eq
      uniqueSuggestions2_def rankMatchesWithInfo_def sort_by_def slice0_def)

lemma autocomplete2_throws:
  assumes "EnhancedTrie_autocomplete (trie a) query (Some (default_limit limit)) \<noteq> []"
  shows "FuzzyTrieAutocomplete_autocomplete2 a query limit = Inl TypeError"
proof -
  have "query \<noteq> []" using assms by (auto simp: EnhancedTrie_autocomplete_def)
  moreover have "query \<in> set (getVariations (maxDistance a) query)"
    by (rule word_in_getVariations)
  ultimately show ?thesis using assms unfolding autocomplete2_eq by auto
qed

lemma findAllWords_st_eq: "findAllWords_st node results t = (findAllWords node results, t)"
proof (induction node arbitrary: results)
  case (TrieNode kids e s f l)
  have "fold (\<lambda>kv rt. findAllWords_st (snd kv) (fst rt) (snd rt)) ks (acc, t)
        = (fold (\<lambda>kv res. findAllWords (snd kv) res) ks acc, t)" if "set ks \<subseteq> set kids" for ks acc
    using that
  proof (induction ks arbitrary: acc)
    case Nil
    then show ?case by simp
  next
    case (Cons k ks)
    then have "k \<in> set kids" by simp
    then have "findAllWords_st (snd k) acc t = (findAllWords (snd k) acc, t)"
      using TrieNode.IH [of k "snd k" acc] by (simp add: snds.intros)
    then show ?case using Cons by simp
  qed
  then show ?case by simp
qed

lemma EnhancedTrie_autocomplete_st_eq:
  "EnhancedTrie_autocomplete_st prefix limit t = (EnhancedTrie_autocomplete t prefix limit, t)"
  by (simp add: EnhancedTrie_autocomplete_st_def EnhancedTrie_autocomplete_def findAllWords_st_eq
      split: option.splits)

lemma fold_variations_st:
  "fold (\<lambda>variation st.
           case EnhancedTrie_autocomplete_st variation l (trie (snd st)) of
             (suggestions, t') \<Rightarrow> (fst st @ suggestions, (snd st)\<lparr>trie := t'\<rparr>))
     vs (acc, a)
   = (acc @ concat (map (\<lambda>variation. EnhancedTrie_autocomplete (trie a) variation l) vs), a)"
  by (induction vs arbitrary: acc) (simp_all add: EnhancedTrie_autocomplete_st_eq)

lemma FuzzyTrieAutocomplete_autocomplete_st_eq:
  "FuzzyTrieAutocomplete_autocomplete_st query limit a
   = (FuzzyTrieAutocomplete_autocomplete a query limit, a)"
  by (simp add: FuzzyTrieAutocomplete_autocomplete_st_def FuzzyTrieAutocomplete_autocomplete_def
      fold_variations_st Let_def)

section \<open>The claims\<close>

subsection \<open>C1: ranking by frequency\<close>

text \<open>
  C1 does not hold of the code. On the example both sentences are hits of the query \<open>ab\<close>,
  each at distance 1 from it, \<open>acb\<close> with frequency 2 and \<open>abc\<close> with frequency 1. The
  \<^verbatim>\<open>autocomplete\<close> of lines 423 to 466 of script.js, which is to rank by frequency and then
  by distance, returns no list: it throws a TypeError at its first suggestion, where it calls
  the method \<^verbatim>\<open>getFrequency\<close> that the trie does not have (lemma \<open>autocomplete2_eq\<close>: it
  throws whenever a variation has a suggestion, and returns the empty list otherwise). Its
  sort of lines 453 to 464 would put the higher frequency first (lemma \<open>sorted_final\<close>). The
  \<^verbatim>\<open>autocomplete\<close> of lines 22 to 40 ranks by the similarity to the query alone and returns
  the sentence of frequency 1 before the sentence of frequency 2.
\<close>

theorem ranking_by_frequency_fails:
  "EnhancedTrie_autocomplete example_trie ''a'' None = [''acb'', ''abc''] \<and>
   map_option frequency (walk (root example_trie) ''acb'') = Some 2 \<and>
   map_option frequency (walk (root example_trie) ''abc'') = Some 1 \<and>
   levenshteinDistance ''ab'' ''acb'' = 1 \<and>
   levenshteinDistance ''ab'' ''abc'' = 1 \<and>
   FuzzyTrieAutocomplete_autocomplete2 example_fta ''ab'' None = Inl TypeError \<and>
   FuzzyTrieAutocomplete_autocomplete example_fta ''ab'' None = [''abc'', ''acb'']"
proof (intro conjI)
  show "EnhancedTrie_autocomplete example_trie ''a'' None = [''acb'', ''abc'']" by code_simp
  show "map_option frequency (walk (root example_trie) ''acb'') = Some 2" by code_simp
  show "map_option frequency (walk (root example_trie) ''abc'') = Some 1" by code_simp
  show "levenshteinDistance ''ab'' ''acb'' = 1" by code_simp
  show "levenshteinDistance ''ab'' ''abc'' = 1" by code_simp
  have "EnhancedTrie_autocomplete (trie example_fta) ''ab'' (Some (default_limit None)) \<noteq> []"
    by code_simp
  then show "FuzzyTrieAutocomplete_autocomplete2 example_fta ''ab'' None = Inl TypeError"
    by (rule autocomplete2_throws)
  show "FuzzyTrieAutocomplete_autocomplete example_fta ''ab'' None = [''abc'', ''acb'']"
    by code_simp
qed

subsection \<open>C2: the variations cover the strings within the distance\<close>

text \<open>
  C2, as amended. For every non-empty word and every \<open>maxDistance\<close> \<open>k\<close>, every string over
  the alphabet of \<^const>\<open>chars\<close> whose Levenshtein distance from the word is at most \<open>k\<close> is
  in the set that \<^const>\<open>getVariations\<close> returns.
\<close>

theorem variations_superset_nonempty:
  assumes "word \<noteq> []" and "set t \<subseteq> set chars" and "lev word t \<le> nat k"
  shows "t \<in> set (getVariations k word)"
  using reach_rounds [OF reach_lev [OF assms(2)] assms(3)] assms(1)
  by (simp add: getVariations_rounds)

theorem variations_superset_nonempty_witness:
  "''a'' \<noteq> [] \<and> set ''b'' \<subseteq> set chars \<and> lev ''a'' ''b'' \<le> nat 1 \<and>
   ''b'' \<in> set (getVariations 1 ''a'')"
  using variations_superset_nonempty [of "''a''" "''b''" 1] by (simp add: chars_def)

text \<open>
  C2 as stated fails for the empty word: \<^const>\<open>getVariations\<close> returns the set of the word
  alone when the word is empty, whatever \<open>maxDistance\<close> is, and \<open>a\<close> is at distance 1.
\<close>

theorem variations_superset_counterexample:
  "set ''a'' \<subseteq> set chars \<and> lev [] ''a'' \<le> nat 1 \<and> ''a'' \<notin> set (getVariations 1 [])"
  by (simp add: chars_def getVariations_def new_Set_def set_add_def)

subsection \<open>C3: the distance is a metric\<close>

text \<open>
  C3. \<^const>\<open>levenshteinDistance\<close> is symmetric, is 0 between a string and itself and
  between no two different strings, obeys the triangle inequality, and gives the length of
  the other string when one string is empty. It is the recursion \<^const>\<open>lev\<close> (lemma
  \<open>levenshteinDistance_lev\<close>), the least number of edits that turn one string into the other
  (lemma \<open>lev_least_edits\<close>).
\<close>

theorem levenshteinDistance_metric:
  "levenshteinDistance a b = levenshteinDistance b a \<and>
   levenshteinDistance a a = 0 \<and>
   (levenshteinDistance a b = 0 \<longleftrightarrow> a = b) \<and>
   levenshteinDistance a b \<le> levenshteinDistance a c + levenshteinDistance c b \<and>
   levenshteinDistance [] b = length b \<and>
   levenshteinDistance a [] = length a"
  using lev_sym [of a b] lev_triangle [of a b c]
  by (auto simp: levenshteinDistance_lev lev_refl lev_eq_0_iff)

theorem levenshteinDistance_metric_witness:
  "levenshteinDistance ''kitten'' ''sitting'' = levenshteinDistance ''sitting'' ''kitten'' \<and>
   levenshteinDistance ''kitten'' ''kitten'' = 0 \<and>
   (levenshteinDistance ''kitten'' ''sitting'' = 0 \<longleftrightarrow> ''kitten'' = ''sitting'') \<and>
   levenshteinDistance ''kitten'' ''sitting''
     \<le> levenshteinDistance ''kitten'' ''mitten'' + levenshteinDistance ''mitten'' ''sitting'' \<and>
   levenshteinDistance [] ''sitting'' = length ''sitting'' \<and>
   levenshteinDistance ''kitten'' [] = length ''kitten''"
  by (rule levenshteinDistance_metric)

subsection \<open>C4: a lookup after an insertion\<close>

text \<open>
  C4, as amended. After the insertion of a non-empty sentence, a lookup with a non-empty
  prefix whose lower-case form starts the key of the sentence returns the trimmed sentence,
  when its limit is not below the number of stored sentences under that prefix (the number
  that the lookup returns when its limit is the number of all entries). Two prefixes with
  the same lower-case form get the same list, for every limit.
\<close>

theorem insert_lookup_roundtrip:
  assumes "sentence \<noteq> []" and "prefix \<noteq> []"
    and "processSentence sentence = processSentence prefix @ rest"
    and "t' = EnhancedTrie_insert now sentence t"
    and "int (length (EnhancedTrie_autocomplete t' prefix (Some (int (countUniqueEntries t')))))
           \<le> default_limit limit"
  shows "trim sentence \<in> set (EnhancedTrie_autocomplete t' prefix limit) \<and>
         (\<forall>q. processSentence q = processSentence prefix \<longrightarrow>
            EnhancedTrie_autocomplete t' q limit = EnhancedTrie_autocomplete t' prefix limit)"
proof (intro conjI allI impI)
  have rt: "root t' = insert_node now sentence (processSentence prefix @ rest) (root t)"
    using assms(1,3,4) by (simp add: EnhancedTrie_insert_def)
  obtain m where m: "walk (root t') (processSentence prefix) = Some (insert_node now sentence rest m)"
    using walk_insert_node_prefix [of now sentence "processSentence prefix" rest "root t"] rt
    by auto
  let ?n = "insert_node now sentence rest m"
  obtain f where f: "\<lparr>s_text = trim sentence, s_frequency = f, s_lastUsed = now\<rparr> \<in> set (words_of ?n)"
    using words_of_insert_node by blast
  have "length (words_of ?n) \<le> length (words_of (root t'))"
    using m by (rule length_words_of_walk)
  then have "int (length (words_of ?n)) \<le> int (countUniqueEntries t')"
    by (simp add: countUniqueEntries_def countNodes_words_of)
  then have "EnhancedTrie_autocomplete t' prefix (Some (int (countUniqueEntries t')))
             = map s_text (sort_by rank_cmp (words_of ?n))"
    using m assms(2)
    by (simp add: EnhancedTrie_autocomplete_def rankSuggestions_def findAllWords_words_of
        slice0_all default_limit_def)
  then have "int (length (words_of ?n)) \<le> default_limit limit"
    using assms(5) by simp
  then have "rankSuggestions (findAllWords ?n []) (default_limit limit)
             = map s_text (sort_by rank_cmp (words_of ?n))"
    by (simp add: rankSuggestions_def findAllWords_words_of slice0_all)
  moreover have "trim sentence \<in> set (map s_text (sort_by rank_cmp (words_of ?n)))"
    using f by force
  ultimately show "trim sentence \<in> set (EnhancedTrie_autocomplete t' prefix limit)"
    using m assms(2) by (simp add: EnhancedTrie_autocomplete_def)
next
  fix q assume "processSentence q = processSentence prefix"
  then show "EnhancedTrie_autocomplete t' q limit = EnhancedTrie_autocomplete t' prefix limit"
    by (rule case_insensitive)
qed

theorem insert_lookup_roundtrip_witness:
  "''The quick brown fox.'' \<noteq> [] \<and> ''THE QUICK'' \<noteq> [] \<and>
   processSentence ''The quick brown fox.'' = processSentence ''THE QUICK'' @ '' brown fox.'' \<and>
   int (length (EnhancedTrie_autocomplete
          (EnhancedTrie_insert 1 ''The quick brown fox.'' new_EnhancedTrie) ''THE QUICK''
          (Some (int (countUniqueEntries
             (EnhancedTrie_insert 1 ''The quick brown fox.'' new_EnhancedTrie))))))
     \<le> default_limit None \<and>
   processSentence ''the quick'' = processSentence ''THE QUICK'' \<and>
   trim ''The quick brown fox.''
     \<in> set (EnhancedTrie_autocomplete
              (EnhancedTrie_insert 1 ''The quick brown fox.'' new_EnhancedTrie) ''THE QUICK'' None) \<and>
   EnhancedTrie_autocomplete
     (EnhancedTrie_insert 1 ''The quick brown fox.'' new_EnhancedTrie) ''the quick'' None
   = EnhancedTrie_autocomplete
       (EnhancedTrie_insert 1 ''The quick brown fox.'' new_EnhancedTrie) ''THE QUICK'' None"
proof -
  have 1: "''The quick brown fox.'' \<noteq> []" and 2: "''THE QUICK'' \<noteq> []" by simp_all
  have 3: "processSentence ''The quick brown fox.''
           = processSentence ''THE QUICK'' @ '' brown fox.''"
    by code_simp
  have 4: "int (length (EnhancedTrie_autocomplete
          (EnhancedTrie_insert 1 ''The quick brown fox.'' new_EnhancedTrie) ''THE QUICK''
          (Some (int (countUniqueEntries
             (EnhancedTrie_insert 1 ''The quick brown fox.'' new_EnhancedTrie))))))
     \<le> default_limit None"
    by code_simp
  have 5: "processSentence ''the quick'' = processSentence ''THE QUICK''" by code_simp
  from insert_lookup_roundtrip [OF 1 2 3 refl 4] 1 2 3 4 5 show ?thesis by blast
qed

text \<open>
  C4 as stated fails in two ways. The empty string is a prefix of every key, and a lookup
  with the empty prefix returns nothing. And the lookup returns at most \<open>limit\<close> entries, 10
  by default: with ten sentences of frequency 2 under the prefix \<open>b\<close>, the sentence \<open>ba\<close>
  that was just inserted is not among them.
\<close>

theorem insert_lookup_roundtrip_counterexample:
  "trim ''a'' \<notin> set (EnhancedTrie_autocomplete (EnhancedTrie_insert 1 ''a'' new_EnhancedTrie) [] None) \<and>
   trim ''ba'' \<notin> set (EnhancedTrie_autocomplete (EnhancedTrie_insert 3 ''ba'' crowded_trie) ''b'' None)"
  by code_simp


subsection \<open>C5: the same sentence inserted twice\<close>

text \<open>
  C5. Two insertions of the same non-empty sentence into the empty trie leave one stored
  entry, with the trimmed sentence and frequency 2; the second insertion adds no node, and
  the counter of insertions is 2.
\<close>

theorem insert_twice_frequency:
  assumes "sentence \<noteq> []"
  shows "let t1 = EnhancedTrie_insert now1 sentence new_EnhancedTrie;
             t2 = EnhancedTrie_insert now2 sentence t1
         in findAllWords (root t2) []
              = [\<lparr>s_text = trim sentence, s_frequency = 2, s_lastUsed = now2\<rparr>]
            \<and> countUniqueEntries t2 = 1
            \<and> countTotalNodes t2 = countTotalNodes t1
            \<and> totalInsertions t2 = 2"
  using assms
  by (simp add: EnhancedTrie_insert_def new_EnhancedTrie_def insert_node_new insert_node_chain
      findAllWords_words_of words_of_chain countUniqueEntries_def countNodes_words_of
      countTotalNodes_def countTotalNodesHelper_chain Let_def)

theorem insert_twice_frequency_witness:
  "''The quick brown fox.'' \<noteq> [] \<and>
   (let t1 = EnhancedTrie_insert 1 ''The quick brown fox.'' new_EnhancedTrie;
        t2 = EnhancedTrie_insert 2 ''The quick brown fox.'' t1
    in findAllWords (root t2) []
         = [\<lparr>s_text = trim ''The quick brown fox.'', s_frequency = 2, s_lastUsed = 2\<rparr>]
       \<and> countUniqueEntries t2 = 1
       \<and> countTotalNodes t2 = countTotalNodes t1
       \<and> totalInsertions t2 = 2)"
proof -
  have 1: "''The quick brown fox.'' \<noteq> []" by simp
  from insert_twice_frequency [OF 1, of 1 2] 1 show ?thesis by blast
qed

subsection \<open>C6: the feedback of a selection\<close>

text \<open>
  C6. In every state of the trie, \<^const>\<open>EnhancedTrie_recordSelection\<close> changes something
  exactly when the path of the key exists, the node it reaches ends a sentence and the
  sentence stored there is the given one. Then the frequency of that node is one higher and
  its time stamp is the new one, its other fields and its children are as before, every
  other node is as before, and so is the counter of insertions. In every other case the
  state returned is the state given. The operation has no error result. The states are
  those reachable from the empty trie: there the root ends no sentence (lemma
  \<open>reachable_root\<close>), and the method, which returns at once for the empty sentence, agrees
  with the test for it too.
\<close>

theorem recordSelection_exact:
  assumes "reachable t"
  shows "let t' = EnhancedTrie_recordSelection now sentence t; key = processSentence sentence
         in if selected (root t) key sentence
            then totalInsertions t' = totalInsertions t \<and>
                 (\<forall>p. map_option node_fields (walk (root t') p) =
                    (if p = key
                     then map_option
                            (\<lambda>m. (map fst (children m), True, sentence, frequency m + 1, now))
                            (walk (root t) key)
                     else map_option node_fields (walk (root t) p)))
            else t' = t"
proof (cases "sentence = []")
  case True
  have "\<not> selected (root t) [] []"
    using reachable_root [OF assms] by (simp add: selected_def)
  then show ?thesis using True
    by (simp add: EnhancedTrie_recordSelection_def processSentence_def toLowerCase_def)
next
  case False
  show ?thesis
  proof (cases "selected (root t) (processSentence sentence) sentence")
    case True
    then show ?thesis using False
      by (simp add: EnhancedTrie_recordSelection_def Let_def walk_select_node)
  next
    case no: False
    then show ?thesis using False
      by (simp add: EnhancedTrie_recordSelection_def Let_def select_node_id)
  qed
qed

text \<open>
  On the example, the selection of \<open>acb\<close> raises the frequency of its node from 2 to 3;
  the selection of \<open>ACB\<close>, which has the same key and is not the stored sentence, changes
  nothing.
\<close>

theorem recordSelection_exact_witness:
  "reachable example_trie \<and>
   selected (root example_trie) (processSentence ''acb'') ''acb'' \<and>
   \<not> selected (root example_trie) (processSentence ''ACB'') ''ACB'' \<and>
   totalInsertions (EnhancedTrie_recordSelection 7 ''acb'' example_trie)
     = totalInsertions example_trie \<and>
   map_option node_fields (walk (root (EnhancedTrie_recordSelection 7 ''acb'' example_trie)) ''acb'')
     = Some ([], True, ''acb'', 3, 7) \<and>
   map_option node_fields (walk (root (EnhancedTrie_recordSelection 7 ''acb'' example_trie)) ''abc'')
     = map_option node_fields (walk (root example_trie) ''abc'') \<and>
   EnhancedTrie_recordSelection 7 ''ACB'' example_trie = example_trie"
proof -
  have r: "reachable example_trie"
    unfolding example_trie_def by (intro reachable.intros)
  have k: "processSentence ''acb'' = ''acb''" "processSentence ''ACB'' = ''acb''" by code_simp+
  have s1: "selected (root example_trie) (processSentence ''acb'') ''acb''" by code_simp
  have s2: "\<not> selected (root example_trie) (processSentence ''ACB'') ''ACB''" by code_simp
  have w: "walk (root example_trie) ''acb'' = Some (TrieNode [] True ''acb'' 2 2)" by code_simp
  from recordSelection_exact [OF r, of 7 "''acb''"] s1
  have a: "totalInsertions (EnhancedTrie_recordSelection 7 ''acb'' example_trie)
             = totalInsertions example_trie"
    and b: "\<And>p. map_option node_fields
               (walk (root (EnhancedTrie_recordSelection 7 ''acb'' example_trie)) p)
             = (if p = processSentence ''acb''
                then map_option (\<lambda>m. (map fst (children m), True, ''acb'', frequency m + 1, 7))
                       (walk (root example_trie) (processSentence ''acb''))
                else map_option node_fields (walk (root example_trie) p))"
    by (simp_all add: Let_def)
  have b1: "map_option node_fields
              (walk (root (EnhancedTrie_recordSelection 7 ''acb'' example_trie)) ''acb'')
            = Some ([], True, ''acb'', 3, 7)"
    using b [of "''acb''"] k w by simp
  have b2: "map_option node_fields
              (walk (root (EnhancedTrie_recordSelection 7 ''acb'' example_trie)) ''abc'')
            = map_option node_fields (walk (root example_trie) ''abc'')"
    using b [of "''abc''"] k by simp
  from recordSelection_exact [OF r, of 7 "''ACB''"] s2
  have c: "EnhancedTrie_recordSelection 7 ''ACB'' example_trie = example_trie"
    by (simp add: Let_def)
  from r s1 s2 a b1 b2 c show ?thesis by blast
qed

subsection \<open>C7: empty input\<close>

text \<open>
  C7. For a sentence that is empty after trimming, that is, one of white space only,
  \<^const>\<open>FuzzyTrieAutocomplete_insert\<close> returns \<open>False\<close> and the state it was given, the
  trie and its counter of insertions included; the trie's own insert ignores the empty
  sentence. With the empty query every \<^verbatim>\<open>autocomplete\<close> returns the empty list, whatever
  the trie holds. None of these returns an error.
\<close>

theorem empty_input_noop:
  "trim sentence = [] \<Longrightarrow>
   FuzzyTrieAutocomplete_insert now sentence a = (False, a) \<and>
   EnhancedTrie_insert now [] t = t \<and>
   FuzzyTrieAutocomplete_autocomplete a [] limit = [] \<and>
   FuzzyTrieAutocomplete_autocomplete2 a [] limit = Inr [] \<and>
   EnhancedTrie_autocomplete t [] limit = []"
  by (simp add: FuzzyTrieAutocomplete_insert_def EnhancedTrie_insert_def
      FuzzyTrieAutocomplete_autocomplete_def FuzzyTrieAutocomplete_autocomplete2_def
      EnhancedTrie_autocomplete_def)

theorem empty_input_noop_witness:
  "trim ''   '' = [] \<and>
   FuzzyTrieAutocomplete_insert 5 ''   '' example_fta = (False, example_fta) \<and>
   EnhancedTrie_insert 5 [] example_trie = example_trie \<and>
   FuzzyTrieAutocomplete_autocomplete example_fta [] None = [] \<and>
   FuzzyTrieAutocomplete_autocomplete2 example_fta [] None = Inr [] \<and>
   EnhancedTrie_autocomplete example_trie [] None = []"
proof -
  have 1: "trim ''   '' = []" by code_simp
  from empty_input_noop [OF 1] 1 show ?thesis by blast
qed

subsection \<open>C8: the limit\<close>

text \<open>
  C8. For a limit that is not negative, no \<^verbatim>\<open>autocomplete\<close> returns more entries than
  the limit: neither the trie's, nor the one of lines 22 to 40 of script.js, nor the one of
  lines 423 to 466 when it returns a list. A call without a limit is the call with the
  limit 10.
\<close>

theorem autocomplete_limit:
  "0 \<le> l \<Longrightarrow>
   length (EnhancedTrie_autocomplete t query (Some l)) \<le> nat l \<and>
   length (FuzzyTrieAutocomplete_autocomplete a query (Some l)) \<le> nat l \<and>
   (case FuzzyTrieAutocomplete_autocomplete2 a query (Some l) of
      Inl e \<Rightarrow> True | Inr r \<Rightarrow> length r \<le> nat l) \<and>
   EnhancedTrie_autocomplete t query None = EnhancedTrie_autocomplete t query (Some 10) \<and>
   FuzzyTrieAutocomplete_autocomplete a query None
     = FuzzyTrieAutocomplete_autocomplete a query (Some 10) \<and>
   FuzzyTrieAutocomplete_autocomplete2 a query None
     = FuzzyTrieAutocomplete_autocomplete2 a query (Some 10)"
  by (auto simp: EnhancedTrie_autocomplete_def FuzzyTrieAutocomplete_autocomplete_def
      FuzzyTrieAutocomplete_autocomplete2_def default_limit_def length_rankSuggestions
      length_slice0 Let_def split: option.splits sum.splits)

text \<open>
  On the example two sentences start with \<open>a\<close>; with the limit 1 the trie returns one.
\<close>

theorem autocomplete_limit_witness:
  "(0::int) \<le> 1 \<and>
   length (EnhancedTrie_autocomplete example_trie ''a'' (Some 2)) = 2 \<and>
   length (EnhancedTrie_autocomplete example_trie ''a'' (Some 1)) \<le> nat 1 \<and>
   length (FuzzyTrieAutocomplete_autocomplete example_fta ''a'' (Some 1)) \<le> nat 1 \<and>
   (case FuzzyTrieAutocomplete_autocomplete2 example_fta ''a'' (Some 1) of
      Inl e \<Rightarrow> True | Inr r \<Rightarrow> length r \<le> nat 1) \<and>
   EnhancedTrie_autocomplete example_trie ''a'' None
     = EnhancedTrie_autocomplete example_trie ''a'' (Some 10)"
proof -
  have 1: "(0::int) \<le> 1" by simp
  have 2: "length (EnhancedTrie_autocomplete example_trie ''a'' (Some 2)) = 2" by code_simp
  from autocomplete_limit [OF 1, of example_trie "''a''" example_fta] 1 2
  show ?thesis by blast
qed

subsection \<open>C9: frequencies\<close>

text \<open>
  C9. In every state reachable from the empty trie by insertions and selections, a node
  that ends a sentence has a frequency of at least 1; and after one more insertion or
  selection every node is still there, with a frequency that is not lower.
\<close>

theorem frequency_never_decreases:
  assumes "reachable t" and "walk (root t) p = Some n"
  shows "(isEndOfWord n \<longrightarrow> 1 \<le> frequency n) \<and>
         (\<exists>n'. walk (root (EnhancedTrie_insert now s t)) p = Some n' \<and>
                frequency n \<le> frequency n') \<and>
         (\<exists>n'. walk (root (EnhancedTrie_recordSelection now s t)) p = Some n' \<and>
                frequency n \<le> frequency n')"
proof (intro conjI impI)
  assume "isEndOfWord n"
  then show "1 \<le> frequency n"
    using every_node_walk [OF reachable_frequency [OF assms(1)] assms(2)] by simp
next
  show "\<exists>n'. walk (root (EnhancedTrie_insert now s t)) p = Some n' \<and> frequency n \<le> frequency n'"
    using assms(2) walk_insert_node_mono [OF assms(2)] by (auto simp: EnhancedTrie_insert_def)
next
  show "\<exists>n'. walk (root (EnhancedTrie_recordSelection now s t)) p = Some n'
             \<and> frequency n \<le> frequency n'"
    using assms(2) walk_select_node_mono [OF assms(2)]
    by (auto simp: EnhancedTrie_recordSelection_def)
qed

theorem frequency_never_decreases_witness:
  "reachable example_trie \<and>
   walk (root example_trie) ''acb'' = Some (TrieNode [] True ''acb'' 2 2) \<and>
   isEndOfWord (TrieNode [] True ''acb'' 2 2) \<and>
   1 \<le> frequency (TrieNode [] True ''acb'' 2 2) \<and>
   (\<exists>n'. walk (root (EnhancedTrie_insert 9 ''acb'' example_trie)) ''acb'' = Some n' \<and>
          frequency (TrieNode [] True ''acb'' 2 2) \<le> frequency n') \<and>
   (\<exists>n'. walk (root (EnhancedTrie_recordSelection 9 ''acb'' example_trie)) ''acb'' = Some n' \<and>
          frequency (TrieNode [] True ''acb'' 2 2) \<le> frequency n')"
proof -
  have r: "reachable example_trie"
    unfolding example_trie_def by (intro reachable.intros)
  have w: "walk (root example_trie) ''acb'' = Some (TrieNode [] True ''acb'' 2 2)" by code_simp
  have e: "isEndOfWord (TrieNode [] True ''acb'' 2 2)" by simp
  from frequency_never_decreases [OF r w, of 9 "''acb''"] r w e show ?thesis by blast
qed

subsection \<open>C10: autocomplete reads only\<close>

text \<open>
  C10. With the state handed through every call, the traversal \<^verbatim>\<open>findAllWords\<close>, the
  trie's \<^verbatim>\<open>autocomplete\<close> and the \<^verbatim>\<open>autocomplete\<close> of lines 22 to 40 of script.js return
  the state they were given: the nodes with their children and fields, and the counter of
  insertions. Their results are those of the functions above.
\<close>

theorem autocomplete_read_only:
  "findAllWords_st node results t = (findAllWords node results, t) \<and>
   EnhancedTrie_autocomplete_st prefix limit t = (EnhancedTrie_autocomplete t prefix limit, t) \<and>
   FuzzyTrieAutocomplete_autocomplete_st query limit a
     = (FuzzyTrieAutocomplete_autocomplete a query limit, a)"
  by (simp add: findAllWords_st_eq EnhancedTrie_autocomplete_st_eq
      FuzzyTrieAutocomplete_autocomplete_st_eq)

theorem autocomplete_read_only_witness:
  "snd (findAllWords_st (root example_trie) [] example_trie) = example_trie \<and>
   snd (EnhancedTrie_autocomplete_st ''a'' None example_trie) = example_trie \<and>
   snd (FuzzyTrieAutocomplete_autocomplete_st ''a'' None example_fta) = example_fta"
  using autocomplete_read_only [of "root example_trie" "[]" example_trie "''a''" None "''a''" example_fta]
  by simp


end
